theory Spec2Isabelle
  imports Main "HOL-Library.Char_ord" "HOL-Library.List_Lexorder"
begin

section \<open>Values exchanged with the content provider\<close>

text \<open>
  The script \<^verbatim>\<open>gbd.js\<close> reads two JSON documents from the provider with
  \<^verbatim>\<open>response.json()\<close>. A parsed JSON value is one of the following. Of a number the
  script only ever observes whether it is zero (truthiness) and whether it equals another
  number (key comparison of \<^verbatim>\<open>Map\<close>). So a number is represented by an integer, zero
  by 0 and different numbers by different integers.
\<close>

datatype json =
    JNull
  | JBool bool
  | JNum int
  | JStr string
  | JArr "json list"
  | JObj "(string \<times> json) list"

text \<open>
  A JavaScript value that may be \<^verbatim>\<open>undefined\<close> is a \<open>json option\<close>, with \<open>None\<close>
  for \<^verbatim>\<open>undefined\<close>.
\<close>

type_synonym jsval = "json option"

text \<open>Errors that the script can throw. All of them are instances of \<^verbatim>\<open>Error\<close>.\<close>

datatype error =
    NetworkError
      \<comment> \<open>\<^verbatim>\<open>fetch\<close> rejected\<close>
  | HttpError nat
      \<comment> \<open>the explicit \<^verbatim>\<open>throw\<close> after \<^verbatim>\<open>!response.ok\<close>, with the status\<close>
  | SyntaxError
      \<comment> \<open>\<^verbatim>\<open>response.json()\<close> rejected: the body is not JSON\<close>
  | TypeError
      \<comment> \<open>property read of \<^verbatim>\<open>null\<close>, call of a non-function, iteration of a non-iterable\<close>
  | NoPageIds
      \<comment> \<open>"Could not parse the list of page IDs from the API response."\<close>
  | InvalidBatch
      \<comment> \<open>"Invalid API response for PID ..."\<close>
  | BlobError
      \<comment> \<open>\<^verbatim>\<open>response.blob()\<close> rejected\<close>
  | ReferenceError
      \<comment> \<open>a \<^verbatim>\<open>const\<close> binding read before its declaration was evaluated\<close>

text \<open>Truthiness of a JavaScript value (\<^verbatim>\<open>ToBoolean\<close>).\<close>

fun truthy :: "jsval \<Rightarrow> bool" where
  "truthy None = False"
| "truthy (Some JNull) = False"
| "truthy (Some (JBool b)) = b"
| "truthy (Some (JNum n)) = (n \<noteq> 0)"
| "truthy (Some (JStr s)) = (s \<noteq> [])"
| "truthy (Some (JArr xs)) = True"
| "truthy (Some (JObj kvs)) = True"

text \<open>
  The properties \<^verbatim>\<open>page\<close>, \<^verbatim>\<open>pid\<close> and \<^verbatim>\<open>src\<close> that the script reads. An object
  yields its own property (of a repeated key \<^verbatim>\<open>JSON.parse\<close> keeps the last occurrence)
  or \<^verbatim>\<open>undefined\<close>. Booleans, numbers, strings and arrays have none of these three
  properties.
\<close>

fun own_prop :: "json \<Rightarrow> string \<Rightarrow> jsval" where
  "own_prop (JObj kvs) name = map_of (rev kvs) name"
| "own_prop v name = None"

text \<open>The read \<^verbatim>\<open>v.name\<close>, which throws a \<^verbatim>\<open>TypeError\<close> on \<^verbatim>\<open>null\<close>.\<close>

definition get_prop :: "json \<Rightarrow> string \<Rightarrow> error + jsval" where
  "get_prop v name = (if v = JNull then Inl TypeError else Inr (own_prop v name))"

text \<open>
  \<^verbatim>\<open>data?.page\<close>: the optional chain yields \<^verbatim>\<open>undefined\<close> when \<^verbatim>\<open>data\<close> is
  \<^verbatim>\<open>null\<close>, and reads the property otherwise.
\<close>

definition data_page :: "json \<Rightarrow> jsval" where
  "data_page data = (if data = JNull then None else own_prop data ''page'')"

subsection \<open>The built-in \<^verbatim>\<open>Map\<close>\<close>

text \<open>
  A \<^verbatim>\<open>Map\<close> keeps its entries in insertion order and compares keys with
  \<^verbatim>\<open>SameValueZero\<close>: booleans, numbers and strings by value, arrays and objects by
  reference. Every array or object that reaches a \<^verbatim>\<open>Map\<close> of this script was created by
  a \<^verbatim>\<open>JSON.parse\<close> of its own and is offered as a key once, so it is the same value as
  no key met before it: \<open>same_value_zero\<close> is false on arrays and objects.
\<close>

type_synonym jsmap = "(json \<times> json) list"

fun is_primitive :: "json \<Rightarrow> bool" where
  "is_primitive (JArr xs) = False"
| "is_primitive (JObj kvs) = False"
| "is_primitive v = True"

definition same_value_zero :: "json \<Rightarrow> json \<Rightarrow> bool" where
  "same_value_zero a b = (is_primitive a \<and> a = b)"

text \<open>\<^verbatim>\<open>m.get(k)\<close>, where the key may be \<^verbatim>\<open>undefined\<close> (never a key of these maps).\<close>

fun map_get :: "jsmap \<Rightarrow> jsval \<Rightarrow> jsval" where
  "map_get m None = None"
| "map_get [] (Some k) = None"
| "map_get ((k', v) # m) (Some k) =
     (if same_value_zero k' k then Some v else map_get m (Some k))"

text \<open>\<^verbatim>\<open>m.has(k)\<close>.\<close>

fun map_has :: "jsmap \<Rightarrow> jsval \<Rightarrow> bool" where
  "map_has m None = False"
| "map_has [] (Some k) = False"
| "map_has ((k', v) # m) (Some k) = (same_value_zero k' k \<or> map_has m (Some k))"

text \<open>
  \<^verbatim>\<open>m.set(k, v)\<close>: the value of an existing key is replaced in place, a new key is
  appended.
\<close>

fun map_set :: "jsmap \<Rightarrow> json \<Rightarrow> json \<Rightarrow> jsmap" where
  "map_set [] k v = [(k, v)]"
| "map_set ((k', v') # m) k v =
     (if same_value_zero k' k then (k', v) # m else (k', v') # map_set m k v)"

section \<open>ApiService\<close>

text \<open>
  What \<^verbatim>\<open>await fetch(url)\<close> gives: a rejection, or a response with its \<^verbatim>\<open>ok\<close> flag,
  its status and its body. The body is \<open>None\<close> when it is not JSON, so that
  \<^verbatim>\<open>response.json()\<close> rejects.
\<close>

datatype fetched =
    Rejected
  | Response (ok: bool) (status: nat) (body: "json option")

text \<open>
  \<^verbatim>\<open>data?.page?.map(p => p.pid)\<close>: \<^verbatim>\<open>undefined\<close> (\<open>Inr None\<close>) when \<^verbatim>\<open>data?.page\<close> is
  \<^verbatim>\<open>undefined\<close> or \<^verbatim>\<open>null\<close>; on an array the list of the \<^verbatim>\<open>pid\<close> properties, unless
  an element is \<^verbatim>\<open>null\<close>; any other value has no \<^verbatim>\<open>map\<close> method, and the call throws.
\<close>

fun map_pid :: "json list \<Rightarrow> error + jsval list" where
  "map_pid [] = Inr []"
| "map_pid (p # ps) =
     (case get_prop p ''pid'' of
        Inl e \<Rightarrow> Inl e
      | Inr v \<Rightarrow> (case map_pid ps of Inl e \<Rightarrow> Inl e | Inr vs \<Rightarrow> Inr (v # vs)))"

fun page_pids :: "jsval \<Rightarrow> error + jsval list option" where
  "page_pids None = Inr None"
| "page_pids (Some JNull) = Inr None"
| "page_pids (Some (JArr ps)) =
     (case map_pid ps of Inl e \<Rightarrow> Inl e | Inr vs \<Rightarrow> Inr (Some vs))"
| "page_pids (Some v) = Inl TypeError"

text \<open>\<^verbatim>\<open>ApiService.getPageManifest\<close>, as a function of what the request returns.\<close>

fun getPageManifest :: "fetched \<Rightarrow> error + jsval list" where
  "getPageManifest Rejected = Inl NetworkError"
| "getPageManifest (Response r_ok r_status r_body) =
     (if \<not> r_ok then Inl (HttpError r_status)
      else case r_body of
        None \<Rightarrow> Inl SyntaxError
      | Some data \<Rightarrow>
          (case page_pids (data_page data) of
             Inl e \<Rightarrow> Inl e
           | Inr None \<Rightarrow> Inl NoPageIds
           | Inr (Some pids) \<Rightarrow> if length pids = 0 then Inl NoPageIds else Inr pids))"

text \<open>
  The body of the loop \<^verbatim>\<open>for (const page of pageData)\<close>, that is
  \<^verbatim>\<open>if (page.src && page.pid) urlMap.set(page.pid, page.src)\<close>: \<^verbatim>\<open>page.src\<close> is read
  first, and \<^verbatim>\<open>page.pid\<close> only when it is truthy.
\<close>

definition add_page :: "jsmap \<Rightarrow> json \<Rightarrow> error + jsmap" where
  "add_page urlMap page =
     (case get_prop page ''src'' of
        Inl e \<Rightarrow> Inl e
      | Inr src \<Rightarrow>
          if \<not> truthy src then Inr urlMap
          else (case get_prop page ''pid'' of
                  Inl e \<Rightarrow> Inl e
                | Inr pid \<Rightarrow>
                    if \<not> truthy pid then Inr urlMap
                    else Inr (map_set urlMap (the pid) (the src))))"

text \<open>The loop over the elements of an array; an error ends it.\<close>

fun collect_urls :: "jsmap \<Rightarrow> json list \<Rightarrow> error + jsmap" where
  "collect_urls urlMap [] = Inr urlMap"
| "collect_urls urlMap (page # rest) =
     (case add_page urlMap page of
        Inl e \<Rightarrow> Inl e
      | Inr urlMap' \<Rightarrow> collect_urls urlMap' rest)"

text \<open>
  The whole \<^verbatim>\<open>for ... of\<close> statement on a truthy \<^verbatim>\<open>pageData\<close>: an array is iterated
  as above; a string is iterated character by character, and a character has neither
  property; \<^verbatim>\<open>true\<close>, a number and an object are not iterable.
\<close>

fun iterate_pages :: "json \<Rightarrow> error + jsmap" where
  "iterate_pages (JArr pages) = collect_urls [] pages"
| "iterate_pages (JStr s) = Inr []"
| "iterate_pages v = Inl TypeError"

text \<open>\<^verbatim>\<open>ApiService.getPageBatch\<close>, as a function of what the request returns.\<close>

fun getPageBatch :: "fetched \<Rightarrow> error + jsmap" where
  "getPageBatch Rejected = Inl NetworkError"
| "getPageBatch (Response r_ok r_status r_body) =
     (if \<not> r_ok then Inl (HttpError r_status)
      else case r_body of
        None \<Rightarrow> Inl SyntaxError
      | Some data \<Rightarrow>
          (let pageData = data_page data
           in if \<not> truthy pageData then Inl InvalidBatch
              else iterate_pages (the pageData)))"

section \<open>Configuration\<close>

text \<open>
  \<^verbatim>\<open>getFilenamePrefix\<close> reads the title element of the page: \<open>None\<close> when
  \<^verbatim>\<open>document.querySelector\<close> finds none, its \<^verbatim>\<open>innerText\<close> otherwise. The two
  \<^verbatim>\<open>replace\<close> calls turn every run of white space into one hyphen and delete the
  characters \<^verbatim>\<open>\ / : * ? " < > |\<close>. Characters are the code units below 256; the white
  space of \<^verbatim>\<open>\s\<close> among them is 9 to 13, 32 and 160.
\<close>

definition is_space :: "char \<Rightarrow> bool" where
  "is_space c = (of_char c \<in> {9, 10, 11, 12, 13, 32, 160 :: nat})"

function replace_spaces :: "string \<Rightarrow> string" where
  "replace_spaces [] = []"
| "replace_spaces (c # cs) =
     (if is_space c then CHR ''-'' # replace_spaces (dropWhile is_space cs)
      else c # replace_spaces cs)"
  by pat_completeness auto
termination
  by (relation "measure length") (auto simp: length_dropWhile_le less_Suc_eq_le)

definition invalid_chars :: "char list" where
  "invalid_chars = [CHR 0x5C, CHR ''/'', CHR '':'', CHR ''*'', CHR ''?'', CHR 0x22,
     CHR ''<'', CHR ''>'', CHR ''|'']"

definition remove_invalid :: "string \<Rightarrow> string" where
  "remove_invalid s = filter (\<lambda>c. c \<notin> set invalid_chars) s"

text \<open>
  The function calls \<^verbatim>\<open>Logger.warn\<close> when there is no title element. \<^verbatim>\<open>Logger\<close> is a
  \<^verbatim>\<open>const\<close> of the enclosing function body, so reading it before its declaration has
  been evaluated throws a \<^verbatim>\<open>ReferenceError\<close>; the first argument says whether the
  declaration has been evaluated.
\<close>

definition getFilenamePrefix :: "bool \<Rightarrow> string option \<Rightarrow> error + string" where
  "getFilenamePrefix logger_declared titleElement =
     (case titleElement of
        None \<Rightarrow> if logger_declared then Inr ''Book'' else Inl ReferenceError
      | Some innerText \<Rightarrow> Inr (remove_invalid (replace_spaces innerText)))"

text \<open>
  \<^verbatim>\<open>CONFIG\<close>. \<^verbatim>\<open>BOOK_ID\<close> is the \<^verbatim>\<open>id\<close> parameter of the page's address, \<open>None\<close>
  (\<^verbatim>\<open>null\<close>) when there is none. The two delays only space the requests in time and
  are left out.
\<close>

record config =
  FILENAME_PREFIX :: string
  BOOK_ID :: "string option"

text \<open>The page the script is pasted into: its title element and its \<^verbatim>\<open>id\<close> parameter.\<close>

record page =
  title :: "string option"
  id_param :: "string option"

text \<open>
  The statement \<^verbatim>\<open>const CONFIG = { FILENAME_PREFIX: getFilenamePrefix(), ... }\<close> stands
  before \<^verbatim>\<open>const Logger = ...\<close> in the script, so the call runs while \<^verbatim>\<open>Logger\<close> is
  not yet declared.
\<close>

definition init_CONFIG :: "page \<Rightarrow> error + config" where
  "init_CONFIG pg =
     (case getFilenamePrefix False (title pg) of
        Inl e \<Rightarrow> Inl e
      | Inr prefix \<Rightarrow> Inr \<lparr>FILENAME_PREFIX = prefix, BOOK_ID = id_param pg\<rparr>)"

section \<open>Building the download jobs\<close>

text \<open>\<^verbatim>\<open>String(n)\<close> for a non-negative integer: its decimal digits.\<close>

definition digit_char :: "nat \<Rightarrow> char" where
  "digit_char d = char_of (48 + d)"

fun to_String :: "nat \<Rightarrow> string" where
  "to_String n =
     (if n < 10 then [digit_char n] else to_String (n div 10) @ [digit_char (n mod 10)])"

declare to_String.simps [simp del]

text \<open>\<^verbatim>\<open>s.padStart(n, c)\<close> with a fill string of one character.\<close>

definition padStart :: "string \<Rightarrow> nat \<Rightarrow> char \<Rightarrow> string" where
  "padStart s n c = replicate (n - length s) c @ s"

record job =
  url :: json
  filename :: string

text \<open>
  The callback of \<^verbatim>\<open>allPids.map((pid, i) => ...)\<close>, which returns \<^verbatim>\<open>null\<close> (\<open>None\<close>)
  when the looked-up URL is falsy.
\<close>

definition make_job :: "string \<Rightarrow> jsmap \<Rightarrow> nat \<Rightarrow> jsval \<Rightarrow> nat \<Rightarrow> job option" where
  "make_job prefix signedUrlMap padding pid i =
     (let u = map_get signedUrlMap pid
      in if \<not> truthy u then None
         else (let pageNumber = padStart (to_String (i + 1)) padding CHR ''0''
               in Some \<lparr>url = the u, filename = prefix @ ''-'' @ pageNumber @ ''.png''\<rparr>))"

text \<open>\<^verbatim>\<open>.filter(Boolean)\<close> on a list of jobs and \<^verbatim>\<open>null\<close>s.\<close>

definition filter_Boolean :: "'a option list \<Rightarrow> 'a list" where
  "filter_Boolean xs = map the (filter (\<lambda>x. x \<noteq> None) xs)"

definition build_jobs :: "string \<Rightarrow> jsval list \<Rightarrow> jsmap \<Rightarrow> job list" where
  "build_jobs prefix allPids signedUrlMap =
     (let padding = length (to_String (length allPids))
      in filter_Boolean
           (map (\<lambda>(pid, i). make_job prefix signedUrlMap padding pid i)
                (zip allPids [0 ..< length allPids])))"

section \<open>The main orchestrator\<close>

subsection \<open>Resolving the URLs\<close>

text \<open>
  \<^verbatim>\<open>batchMap.forEach((url, pid) => signedUrlMap.set(pid, url))\<close>: the entries of the
  batch are set into the mapping in their order.
\<close>

fun merge_batch :: "jsmap \<Rightarrow> jsmap \<Rightarrow> jsmap" where
  "merge_batch signedUrlMap [] = signedUrlMap"
| "merge_batch signedUrlMap ((pid, u) # batchMap) =
     merge_batch (map_set signedUrlMap pid u) batchMap"

text \<open>
  The state of the loop over \<^verbatim>\<open>allPids\<close>: the mapping, and the record of the batch
  requests issued so far, each with the identifier asked for and the mapping as it was
  when the request was issued.
\<close>

record resolver =
  signedUrlMap :: jsmap
  requests :: "(jsval \<times> jsmap) list"

text \<open>
  The provider is a function that answers the \<open>n\<close>-th batch request (counted from 0), made
  for the identifier \<open>pid\<close>. The loop returns the error that stopped it, if any.
\<close>

fun resolve_urls ::
  "(nat \<Rightarrow> jsval \<Rightarrow> fetched) \<Rightarrow> jsval list \<Rightarrow> resolver \<Rightarrow> error option \<times> resolver" where
  "resolve_urls batch [] st = (None, st)"
| "resolve_urls batch (pid # rest) st =
     (if map_has (signedUrlMap st) pid then resolve_urls batch rest st
      else
        (let st' = st\<lparr>requests := requests st @ [(pid, signedUrlMap st)]\<rparr>
         in case getPageBatch (batch (length (requests st)) pid) of
              Inl e \<Rightarrow> (Some e, st')
            | Inr batchMap \<Rightarrow>
                resolve_urls batch rest
                  (st'\<lparr>signedUrlMap := merge_batch (signedUrlMap st) batchMap\<rparr>)))"

subsection \<open>Downloading\<close>

text \<open>
  What the request for an image gives: a rejection, or a response with its \<^verbatim>\<open>ok\<close> flag
  and status, and whether \<^verbatim>\<open>response.blob()\<close> resolves.
\<close>

datatype image_fetched =
    ImageRejected
  | ImageResponse (image_ok: bool) (image_status: nat) (blob_ok: bool)

text \<open>
  \<^verbatim>\<open>DownloaderService.downloadFile\<close>: it throws, or it clicks a link whose
  \<^verbatim>\<open>download\<close> attribute is the filename, which is returned here.
\<close>

fun downloadFile :: "image_fetched \<Rightarrow> job \<Rightarrow> error + string" where
  "downloadFile ImageRejected j = Inl NetworkError"
| "downloadFile (ImageResponse r_ok r_status r_blob) j =
     (if \<not> r_ok then Inl (HttpError r_status)
      else if \<not> r_blob then Inl BlobError
      else Inr (filename j))"

text \<open>
  The state of the download loop: the jobs whose download was attempted, the filenames
  handed to the browser for saving, and \<^verbatim>\<open>failedDownloads\<close>.
\<close>

record retriever =
  attempted :: "job list"
  saved :: "string list"
  failedDownloads :: "string list"

text \<open>The loop over \<^verbatim>\<open>downloadJobs\<close> from index \<open>i\<close> on; \<open>images i j\<close> answers job \<open>i\<close>.\<close>

fun download_all ::
  "(nat \<Rightarrow> job \<Rightarrow> image_fetched) \<Rightarrow> nat \<Rightarrow> job list \<Rightarrow> retriever \<Rightarrow> retriever" where
  "download_all images i [] st = st"
| "download_all images i (j # rest) st =
     (case downloadFile (images i j) j of
        Inl e \<Rightarrow>
          download_all images (i + 1) rest
            (st\<lparr>attempted := attempted st @ [j],
                failedDownloads := failedDownloads st @ [filename j]\<rparr>)
      | Inr f \<Rightarrow>
          download_all images (i + 1) rest
            (st\<lparr>attempted := attempted st @ [j], saved := saved st @ [f]\<rparr>))"

subsection \<open>The run\<close>

text \<open>
  The summary reports \<^verbatim>\<open>downloadJobs.length - failedDownloads.length\<close> as the number
  of successes, \<^verbatim>\<open>downloadJobs.length\<close> as the total, and the failed filenames.
\<close>

record summary =
  succeeded :: int
  total :: nat
  failed :: "string list"

definition summarise :: "job list \<Rightarrow> string list \<Rightarrow> summary" where
  "summarise jobs failedNames =
     \<lparr>succeeded = int (length jobs) - int (length failedNames),
      total = length jobs,
      failed = failedNames\<rparr>"

text \<open>The provider as the run sees it.\<close>

record provider =
  manifest_response :: fetched
  batch_response :: "nat \<Rightarrow> jsval \<Rightarrow> fetched"
  image_response :: "nat \<Rightarrow> job \<Rightarrow> image_fetched"

text \<open>
  What a run of \<^verbatim>\<open>main\<close> does: whether the manifest was requested, the batch requests,
  the value of \<^verbatim>\<open>downloadJobs\<close>, the warning about unresolved pages (resolved count and
  manifest length), the downloads attempted and saved, the summary, and the error
  caught by the outer \<^verbatim>\<open>catch\<close>.
\<close>

record outcome =
  manifest_requested :: bool
  batch_requests :: "(jsval \<times> jsmap) list"
  downloadJobs :: "job list"
  unresolved_warning :: "(nat \<times> nat) option"
  downloads_attempted :: "job list"
  files_saved :: "string list"
  run_summary :: "summary option"
  critical_error :: "error option"

definition nothing_done :: outcome where
  "nothing_done =
     \<lparr>manifest_requested = False, batch_requests = [], downloadJobs = [],
      unresolved_warning = None, downloads_attempted = [], files_saved = [],
      run_summary = None, critical_error = None\<rparr>"

definition main :: "config \<Rightarrow> provider \<Rightarrow> outcome" where
  "main CONFIG net =
     (if BOOK_ID CONFIG = None \<or> BOOK_ID CONFIG = Some [] then nothing_done
      else case getPageManifest (manifest_response net) of
        Inl e \<Rightarrow> nothing_done\<lparr>manifest_requested := True, critical_error := Some e\<rparr>
      | Inr allPids \<Rightarrow>
          (case resolve_urls (batch_response net) allPids
                  \<lparr>signedUrlMap = [], requests = []\<rparr> of
             (Some e, st) \<Rightarrow>
               nothing_done\<lparr>manifest_requested := True, batch_requests := requests st,
                 critical_error := Some e\<rparr>
           | (None, st) \<Rightarrow>
               (let jobs = build_jobs (FILENAME_PREFIX CONFIG) allPids (signedUrlMap st);
                    r = download_all (image_response net) 0 jobs
                          \<lparr>attempted = [], saved = [], failedDownloads = []\<rparr>
                in \<lparr>manifest_requested = True,
                    batch_requests = requests st,
                    downloadJobs = jobs,
                    unresolved_warning =
                      (if length jobs \<noteq> length allPids
                       then Some (length jobs, length allPids) else None),
                    downloads_attempted = attempted r,
                    files_saved = saved r,
                    run_summary = Some (summarise jobs (failedDownloads r)),
                    critical_error = None\<rparr>)))"

text \<open>The whole script: the configuration is set up, then \<^verbatim>\<open>main\<close> runs.\<close>

definition script :: "page \<Rightarrow> provider \<Rightarrow> error + outcome" where
  "script pg net =
     (case init_CONFIG pg of Inl e \<Rightarrow> Inl e | Inr CONFIG \<Rightarrow> Inr (main CONFIG net))"

section \<open>Predicates and example providers used in the statements\<close>

text \<open>No two entries of a \<^verbatim>\<open>Map\<close> have the same key.\<close>

fun distinct_keys :: "jsmap \<Rightarrow> bool" where
  "distinct_keys [] = True"
| "distinct_keys ((k, v) # m) = (\<not> map_has m (Some k) \<and> distinct_keys m)"

text \<open>Every value of a \<^verbatim>\<open>Map\<close> is truthy.\<close>

fun truthy_values :: "jsmap \<Rightarrow> bool" where
  "truthy_values [] = True"
| "truthy_values ((k, v) # m) = (truthy (Some v) \<and> truthy_values m)"

text \<open>
  A record of batch requests is a chain from request number \<open>n\<close> and mapping \<open>m\<close>:
  each request was issued for an identifier that was no key of the mapping at that
  moment, the mapping recorded with it is the mapping that the earlier answers produced,
  and a request that failed is the last one.
\<close>

fun request_chain ::
  "(nat \<Rightarrow> jsval \<Rightarrow> fetched) \<Rightarrow> nat \<Rightarrow> jsmap \<Rightarrow> (jsval \<times> jsmap) list \<Rightarrow> bool" where
  "request_chain batch n m [] = True"
| "request_chain batch n m ((pid, snapshot) # rest) =
     (snapshot = m \<and> \<not> map_has m pid \<and>
      (case getPageBatch (batch n pid) of
         Inl e \<Rightarrow> rest = []
       | Inr batchMap \<Rightarrow> request_chain batch (Suc n) (merge_batch m batchMap) rest))"

text \<open>
  The mapping that a chain of requests leaves behind: the answers merged in order, a
  failed request changing nothing.
\<close>

fun chain_result ::
  "(nat \<Rightarrow> jsval \<Rightarrow> fetched) \<Rightarrow> nat \<Rightarrow> jsmap \<Rightarrow> (jsval \<times> jsmap) list \<Rightarrow> jsmap" where
  "chain_result batch n m [] = m"
| "chain_result batch n m ((pid, snapshot) # rest) =
     (case getPageBatch (batch n pid) of
        Inl e \<Rightarrow> m
      | Inr batchMap \<Rightarrow> chain_result batch (Suc n) (merge_batch m batchMap) rest)"

text \<open>
  The filename of the job for the manifest position \<open>i\<close> (counted from 0) of a manifest of
  length \<open>n\<close>, as \<open>make_job\<close> builds it.
\<close>

definition page_filename :: "string \<Rightarrow> nat \<Rightarrow> nat \<Rightarrow> string" where
  "page_filename prefix n i =
     prefix @ ''-'' @ padStart (to_String (i + 1)) (length (to_String n)) CHR ''0'' @ ''.png''"

text \<open>The last \<open>w\<close> decimal digits of a number, with leading zeros.\<close>

fun fixed_digits :: "nat \<Rightarrow> nat \<Rightarrow> string" where
  "fixed_digits 0 n = []"
| "fixed_digits (Suc w) n = fixed_digits w (n div 10) @ [digit_char (n mod 10)]"

text \<open>The download of the job \<open>snd ij\<close>, at index \<open>fst ij\<close> of the job list, throws.\<close>

definition download_fails :: "(nat \<Rightarrow> job \<Rightarrow> image_fetched) \<Rightarrow> nat \<times> job \<Rightarrow> bool" where
  "download_fails images ij = isl (downloadFile (images (fst ij) (snd ij)) (snd ij))"

text \<open>A provider that answers every batch request with an empty page list.\<close>

definition empty_batches :: "nat \<Rightarrow> jsval \<Rightarrow> fetched" where
  "empty_batches n pid = Response True 200 (Some (JObj [(''page'', JArr [])]))"

text \<open>
  A provider that answers a request for a non-empty string \<open>s\<close> with the one page \<open>s\<close>,
  whose URL is \<open>s\<close> after \<^verbatim>\<open>u-\<close>, and refuses every other request.
\<close>

definition single_page_batches :: "nat \<Rightarrow> jsval \<Rightarrow> fetched" where
  "single_page_batches n pid =
     (case pid of
        Some (JStr s) \<Rightarrow>
          if s = [] then Response False 400 None
          else Response True 200
                 (Some (JObj [(''page'', JArr [JObj [(''pid'', JStr s), (''src'', JStr (''u-'' @ s))]])]))
      | _ \<Rightarrow> Response False 400 None)"

text \<open>
  A provider whose first answer resolves \<^verbatim>\<open>p1\<close>, and whose later answers resolve
  \<^verbatim>\<open>p1\<close> again, to another URL, together with \<^verbatim>\<open>p2\<close>.
\<close>

definition overlapping_batches :: "nat \<Rightarrow> jsval \<Rightarrow> fetched" where
  "overlapping_batches n pid =
     (if n = 0
      then Response True 200 (Some (JObj [(''page'',
             JArr [JObj [(''pid'', JStr ''p1''), (''src'', JStr ''u1'')]])]))
      else Response True 200 (Some (JObj [(''page'',
             JArr [JObj [(''pid'', JStr ''p1''), (''src'', JStr ''u1b'')],
                   JObj [(''pid'', JStr ''p2''), (''src'', JStr ''u2'')]])])))"

text \<open>Image requests of which the second one (index 1) is refused.\<close>

definition second_image_fails :: "nat \<Rightarrow> job \<Rightarrow> image_fetched" where
  "second_image_fails i j =
     (if i = 1 then ImageResponse False 403 True else ImageResponse True 200 True)"

text \<open>
  Three providers: one with a manifest of three pages, one whose manifest request fails
  with status 500, and one whose manifest has a second page without identifier, for
  which the batch request is refused.
\<close>

definition three_page_provider :: provider where
  "three_page_provider =
     \<lparr>manifest_response = Response True 200 (Some (JObj [(''page'',
          JArr [JObj [(''pid'', JStr ''p1'')], JObj [(''pid'', JStr ''p2'')],
                JObj [(''pid'', JStr ''p3'')]])])),
      batch_response = single_page_batches,
      image_response = second_image_fails\<rparr>"



section \<open>Properties of the model\<close>

subsection \<open>Reading the responses\<close>

lemma map_pid_eq:
  "map_pid ps =
     (if JNull \<in> set ps then Inl TypeError else Inr (map (\<lambda>p. own_prop p ''pid'') ps))"
  by (induction ps) (auto simp: get_prop_def)

lemma add_page_eq:
  "add_page m page =
     (if page = JNull then Inl TypeError
      else if truthy (own_prop page ''src'') \<and> truthy (own_prop page ''pid'')
           then Inr (map_set m (the (own_prop page ''pid'')) (the (own_prop page ''src'')))
           else Inr m)"
  by (simp add: add_page_def get_prop_def)

lemma collect_urls_append:
  "collect_urls m (xs @ ys) =
     (case collect_urls m xs of Inl e \<Rightarrow> Inl e | Inr m' \<Rightarrow> collect_urls m' ys)"
  by (induction xs arbitrary: m) (auto split: sum.splits)



subsection \<open>The \<^verbatim>\<open>Map\<close> operations\<close>

lemma map_has_iff_get: "map_has m k \<longleftrightarrow> map_get m k \<noteq> None"
  by (induction m k rule: map_has.induct) auto

lemma map_get_map_set:
  "map_get (map_set m k v) q = (if q = Some k \<and> is_primitive k then Some v else map_get m q)"
proof (cases q)
  case None
  then show ?thesis by simp
next
  case (Some q')
  show ?thesis unfolding Some
    by (induction m) (auto simp: same_value_zero_def)
qed

lemma map_has_map_set:
  "map_has (map_set m k v) q \<longleftrightarrow> (q = Some k \<and> is_primitive k) \<or> map_has m q"
  by (auto simp: map_has_iff_get map_get_map_set)

lemma set_map_set: "set (map_set m k v) \<subseteq> insert (k, v) (set m)"
  by (induction m) (auto simp: same_value_zero_def split: if_splits)

lemma keys_map_set: "fst ` set (map_set m k v) = insert k (fst ` set m)"
proof (induction m)
  case Nil
  show ?case by simp
next
  case (Cons kv m)
  obtain k' v' where kv: "kv = (k', v')" by (cases kv)
  show ?case using Cons.IH by (auto simp: kv image_iff same_value_zero_def)
qed

lemma distinct_keys_map_set: "distinct_keys m \<Longrightarrow> distinct_keys (map_set m k v)"
  by (induction m) (auto simp: map_has_map_set same_value_zero_def)

lemma distinct_keys_add_page:
  "distinct_keys m \<Longrightarrow> add_page m page = Inr m' \<Longrightarrow> distinct_keys m'"
  by (auto simp: add_page_eq distinct_keys_map_set split: if_splits)

lemma distinct_keys_collect_urls:
  "distinct_keys m \<Longrightarrow> collect_urls m pages = Inr m' \<Longrightarrow> distinct_keys m'"
proof (induction pages arbitrary: m)
  case Nil
  then show ?case by simp
next
  case (Cons page rest)
  then show ?case
    by (auto split: sum.splits dest: distinct_keys_add_page)
qed

lemma distinct_keys_getPageBatch: "getPageBatch r = Inr b \<Longrightarrow> distinct_keys b"
proof (cases r)
  case Rejected
  assume "getPageBatch r = Inr b"
  with Rejected show ?thesis by simp
next
  case (Response r_ok r_status r_body)
  assume b: "getPageBatch r = Inr b"
  with Response obtain data where data: "r_body = Some data" "truthy (data_page data)"
       "iterate_pages (the (data_page data)) = Inr b"
    by (auto split: if_splits option.splits simp: Let_def)
  then obtain v where v: "data_page data = Some v" "iterate_pages v = Inr b"
    by (cases "data_page data") auto
  then show ?thesis
    by (cases v) (auto dest: distinct_keys_collect_urls [rotated])
qed

lemma map_get_merge_batch:
  "distinct_keys b \<Longrightarrow>
     map_get (merge_batch m b) q = (if map_has b q then map_get b q else map_get m q)"
proof (induction b arbitrary: m)
  case Nil
  then show ?case by (cases q) auto
next
  case (Cons kv b)
  obtain k v where kv: "kv = (k, v)" by (cases kv)
  from Cons.prems kv have d: "\<not> map_has b (Some k)" "distinct_keys b" by auto
  show ?case
  proof (cases q)
    case None
    then show ?thesis by simp
  next
    case (Some q')
    with d Cons.IH [OF d(2), of "map_set m k v"] show ?thesis
      by (auto simp: kv map_get_map_set same_value_zero_def)
  qed
qed

lemma map_has_merge_batch:
  "map_has (merge_batch m b) q \<longleftrightarrow> map_has b q \<or> map_has m q"
proof (induction b arbitrary: m)
  case Nil
  then show ?case by (cases q) auto
next
  case (Cons kv b)
  then show ?case
    by (cases kv; cases q) (auto simp: map_has_map_set same_value_zero_def)
qed

lemma collect_urls_entries:
  "collect_urls m0 pages = Inr m \<Longrightarrow> (k, v) \<in> set m \<Longrightarrow>
     (k, v) \<in> set m0 \<or>
     (\<exists>page \<in> set pages. own_prop page ''pid'' = Some k \<and> own_prop page ''src'' = Some v \<and>
        truthy (Some k) \<and> truthy (Some v))"
proof (induction pages arbitrary: m0)
  case Nil
  then show ?case by simp
next
  case (Cons page rest)
  from Cons.prems(1) obtain m1 where m1: "add_page m0 page = Inr m1" "collect_urls m1 rest = Inr m"
    by (auto split: sum.splits)
  from Cons.IH [OF m1(2) Cons.prems(2)] show ?case
  proof
    assume "(k, v) \<in> set m1"
    with m1(1) set_map_set [of m0 "the (own_prop page ''pid'')" "the (own_prop page ''src'')"]
    show ?thesis
      by (cases "own_prop page ''pid''"; cases "own_prop page ''src''")
         (auto simp: add_page_eq split: if_splits)
  next
    assume "\<exists>page\<in>set rest. own_prop page ''pid'' = Some k \<and> own_prop page ''src'' = Some v \<and>
        truthy (Some k) \<and> truthy (Some v)"
    then show ?thesis by auto
  qed
qed

subsection \<open>The record of the batch requests\<close>

lemma resolve_urls_log:
  "resolve_urls batch pids st = (res, st') \<Longrightarrow>
     \<exists>new. requests st' = requests st @ new \<and>
           request_chain batch (length (requests st)) (signedUrlMap st) new \<and>
           fst ` set new \<subseteq> set pids"
proof (induction pids arbitrary: st)
  case Nil
  then show ?case by auto
next
  case (Cons pid rest)
  show ?case
  proof (cases "map_has (signedUrlMap st) pid")
    case True
    with Cons.prems have "resolve_urls batch rest st = (res, st')" by simp
    from Cons.IH [OF this] show ?thesis by auto
  next
    case False
    show ?thesis
    proof (cases "getPageBatch (batch (length (requests st)) pid)")
      case (Inl e)
      with False Cons.prems
      have "requests st' = requests st @ [(pid, signedUrlMap st)]"
        by (auto simp: Let_def)
      with False Inl show ?thesis by auto
    next
      case (Inr b)
      let ?st = "st\<lparr>requests := requests st @ [(pid, signedUrlMap st)],
                    signedUrlMap := merge_batch (signedUrlMap st) b\<rparr>"
      from False Inr Cons.prems have "resolve_urls batch rest ?st = (res, st')"
        by (simp add: Let_def)
      from Cons.IH [OF this] obtain new where new:
        "requests st' = (requests st @ [(pid, signedUrlMap st)]) @ new"
        "request_chain batch (Suc (length (requests st))) (merge_batch (signedUrlMap st) b) new"
        "fst ` set new \<subseteq> set rest"
        by auto
      with False Inr show ?thesis
        by (intro exI [of _ "(pid, signedUrlMap st) # new"]) auto
    qed
  qed
qed

lemma request_chain_not_key:
  "request_chain batch n m log \<Longrightarrow> (pid, snapshot) \<in> set log \<Longrightarrow> \<not> map_has snapshot pid"
proof (induction log arbitrary: n m)
  case Nil
  then show ?case by simp
next
  case (Cons entry log)
  then show ?case
    by (cases entry) (auto split: sum.splits)
qed

lemma request_chain_keys_grow:
  "request_chain batch n m log \<Longrightarrow> i < length log \<Longrightarrow> map_has m k \<Longrightarrow>
     map_has (snd (log ! i)) k"
proof (induction log arbitrary: n m i)
  case Nil
  then show ?case by simp
next
  case (Cons entry log)
  obtain pid snapshot where entry: "entry = (pid, snapshot)" by (cases entry)
  show ?case
  proof (cases i)
    case 0
    with Cons.prems entry show ?thesis by simp
  next
    case (Suc i')
    with Cons.prems entry show ?thesis
      by (auto split: sum.splits simp: map_has_merge_batch intro: Cons.IH)
  qed
qed

lemma request_chain_earlier_batches:
  "request_chain batch n m log \<Longrightarrow> j < i \<Longrightarrow> i < length log \<Longrightarrow>
     getPageBatch (batch (n + j) (fst (log ! j))) = Inr b \<Longrightarrow> map_has b k \<Longrightarrow>
     map_has (snd (log ! i)) k"
proof (induction log arbitrary: n m i j)
  case Nil
  then show ?case by simp
next
  case (Cons entry log)
  obtain pid snapshot where entry: "entry = (pid, snapshot)" by (cases entry)
  from Cons.prems obtain i' where i': "i = Suc i'" "i' < length log" by (cases i) auto
  show ?case
  proof (cases j)
    case 0
    with Cons.prems entry have b: "getPageBatch (batch n pid) = Inr b" by simp
    with Cons.prems(1) entry
    have "request_chain batch (Suc n) (merge_batch m b) log" by simp
    from request_chain_keys_grow [OF this i'(2), of k] Cons.prems(5) i' show ?thesis
      by (simp add: map_has_merge_batch)
  next
    case (Suc j')
    with Cons.prems i' entry show ?thesis
      by (auto split: sum.splits intro: Cons.IH [of "Suc n" _ j' i'])
  qed
qed

lemma request_chain_distinct_answered:
  "request_chain batch n m log \<Longrightarrow>
     (\<forall>k b. k < length log \<and> getPageBatch (batch (n + k) (fst (log ! k))) = Inr b \<longrightarrow>
        map_has b (fst (log ! k))) \<Longrightarrow>
     distinct (map fst log) \<and> (\<forall>p \<in> fst ` set log. \<not> map_has m p)"
proof (induction log arbitrary: n m)
  case Nil
  then show ?case by simp
next
  case (Cons entry log)
  obtain pid snapshot where entry: "entry = (pid, snapshot)" by (cases entry)
  show ?case
  proof (cases "getPageBatch (batch n pid)")
    case (Inl e)
    with Cons.prems(1) entry show ?thesis by auto
  next
    case (Inr b)
    with Cons.prems(1) entry have c: "request_chain batch (Suc n) (merge_batch m b) log"
      and nk: "\<not> map_has m pid" by auto
    have "\<forall>k b. k < length log \<and> getPageBatch (batch (Suc n + k) (fst (log ! k))) = Inr b \<longrightarrow>
        map_has b (fst (log ! k))"
    proof (intro allI impI)
      fix k b'
      assume "k < length log \<and> getPageBatch (batch (Suc n + k) (fst (log ! k))) = Inr b'"
      then have "Suc k < length (entry # log) \<and>
          getPageBatch (batch (n + Suc k) (fst ((entry # log) ! Suc k))) = Inr b'" by simp
      with Cons.prems(2) have "map_has b' (fst ((entry # log) ! Suc k))" by blast
      then show "map_has b' (fst (log ! k))" by simp
    qed
    from Cons.IH [OF c this] have d: "distinct (map fst log)"
      and nk': "\<forall>p \<in> fst ` set log. \<not> map_has (merge_batch m b) p" by auto
    from Cons.prems(2) [rule_format, of 0 b] Inr entry have "map_has b pid" by simp
    then have "map_has (merge_batch m b) pid" by (simp add: map_has_merge_batch)
    with nk' have "pid \<notin> fst ` set log" by blast
    with d nk nk' show ?thesis
      by (auto simp: entry map_has_merge_batch)
  qed
qed

lemma resolve_urls_append:
  "resolve_urls batch (xs @ ys) st =
     (case resolve_urls batch xs st of
        (Some e, st') \<Rightarrow> (Some e, st')
      | (None, st') \<Rightarrow> resolve_urls batch ys st')"
  by (induction xs arbitrary: st) (auto simp: Let_def split: sum.splits)

lemma resolve_urls_final:
  "resolve_urls batch pids st = (res, st') \<Longrightarrow>
     \<exists>new. requests st' = requests st @ new \<and>
           request_chain batch (length (requests st)) (signedUrlMap st) new \<and>
           signedUrlMap st' = chain_result batch (length (requests st)) (signedUrlMap st) new"
proof (induction pids arbitrary: st)
  case Nil
  then show ?case by auto
next
  case (Cons pid rest)
  show ?case
  proof (cases "map_has (signedUrlMap st) pid")
    case True
    with Cons.prems have "resolve_urls batch rest st = (res, st')" by simp
    from Cons.IH [OF this] show ?thesis by auto
  next
    case False
    show ?thesis
    proof (cases "getPageBatch (batch (length (requests st)) pid)")
      case (Inl e)
      with False Cons.prems
      have "requests st' = requests st @ [(pid, signedUrlMap st)]"
        "signedUrlMap st' = signedUrlMap st"
        by (auto simp: Let_def)
      with False Inl show ?thesis by auto
    next
      case (Inr b)
      let ?st = "st\<lparr>requests := requests st @ [(pid, signedUrlMap st)],
                    signedUrlMap := merge_batch (signedUrlMap st) b\<rparr>"
      from False Inr Cons.prems have "resolve_urls batch rest ?st = (res, st')"
        by (simp add: Let_def)
      from Cons.IH [OF this] obtain new where new:
        "requests st' = (requests st @ [(pid, signedUrlMap st)]) @ new"
        "request_chain batch (Suc (length (requests st))) (merge_batch (signedUrlMap st) b) new"
        "signedUrlMap st' =
           chain_result batch (Suc (length (requests st))) (merge_batch (signedUrlMap st) b) new"
        by auto
      with False Inr show ?thesis
        by (intro exI [of _ "(pid, signedUrlMap st) # new"]) auto
    qed
  qed
qed

lemma request_chain_after:
  "request_chain batch n m log \<Longrightarrow> i < length log \<Longrightarrow>
     getPageBatch (batch (n + i) (fst (log ! i))) = Inr b \<Longrightarrow>
     (if Suc i < length log then snd (log ! Suc i) else chain_result batch n m log)
       = merge_batch (snd (log ! i)) b"
proof (induction log arbitrary: n m i)
  case Nil
  then show ?case by simp
next
  case (Cons entry log)
  obtain pid snapshot where entry: "entry = (pid, snapshot)" by (cases entry)
  show ?case
  proof (cases i)
    case 0
    with Cons.prems entry have b: "getPageBatch (batch n pid) = Inr b" "snapshot = m"
      "request_chain batch (Suc n) (merge_batch m b) log" by auto
    show ?thesis
    proof (cases log)
      case Nil
      with 0 entry b show ?thesis by simp
    next
      case (Cons entry' log')
      with 0 entry b show ?thesis by (cases entry') auto
    qed
  next
    case (Suc i')
    with Cons.prems have i': "i' < length log" by simp
    then have ne: "log \<noteq> []" by auto
    with Cons.prems(1) entry obtain b0 where b0: "getPageBatch (batch n pid) = Inr b0"
      "request_chain batch (Suc n) (merge_batch m b0) log"
      by (auto split: sum.splits)
    from Cons.prems(3) Suc have "getPageBatch (batch (Suc n + i') (fst (log ! i'))) = Inr b"
      by simp
    from Cons.IH [OF b0(2) i' this] Suc entry b0(1) show ?thesis
      by (simp split: if_splits)
  qed
qed

lemma request_chain_failed:
  "request_chain batch n m log \<Longrightarrow> i < length log \<Longrightarrow>
     getPageBatch (batch (n + i) (fst (log ! i))) = Inl e \<Longrightarrow>
     Suc i = length log \<and> chain_result batch n m log = snd (log ! i)"
proof (induction log arbitrary: n m i)
  case Nil
  then show ?case by simp
next
  case (Cons entry log)
  obtain pid snapshot where entry: "entry = (pid, snapshot)" by (cases entry)
  show ?case
  proof (cases i)
    case 0
    with Cons.prems entry show ?thesis by auto
  next
    case (Suc i')
    with Cons.prems have i': "i' < length log" by simp
    then have ne: "log \<noteq> []" by auto
    with Cons.prems(1) entry obtain b0 where b0: "getPageBatch (batch n pid) = Inr b0"
      "request_chain batch (Suc n) (merge_batch m b0) log"
      by (auto split: sum.splits)
    from Cons.prems(3) Suc have "getPageBatch (batch (Suc n + i') (fst (log ! i'))) = Inl e"
      by simp
    from Cons.IH [OF b0(2) i' this]
    have "length log = Suc i'"
      "chain_result batch (Suc n) (merge_batch m b0) log = snd (log ! i')" by simp_all
    with Suc entry b0(1) show ?thesis by simp
  qed
qed

lemma chain_result_keeps_keys:
  "request_chain batch n m log \<Longrightarrow> map_has m k \<Longrightarrow> map_has (chain_result batch n m log) k"
proof (induction log arbitrary: n m)
  case Nil
  then show ?case by simp
next
  case (Cons entry log)
  then show ?case
    by (cases entry) (auto split: sum.splits simp: map_has_merge_batch)
qed

lemma request_chain_keys_stay:
  "request_chain batch n m log \<Longrightarrow> i \<le> j \<Longrightarrow> j < length log \<Longrightarrow>
     map_has (snd (log ! i)) k \<Longrightarrow>
     map_has (snd (log ! j)) k \<and> map_has (chain_result batch n m log) k"
proof (induction log arbitrary: n m i j)
  case Nil
  then show ?case by simp
next
  case (Cons entry log)
  obtain pid snapshot where entry: "entry = (pid, snapshot)" by (cases entry)
  show ?case
  proof (cases i)
    case 0
    with Cons.prems entry have "map_has m k" by simp
    with request_chain_keys_grow [OF Cons.prems(1) Cons.prems(3), of k]
      chain_result_keeps_keys [OF Cons.prems(1), of k]
    show ?thesis by simp
  next
    case (Suc i')
    with Cons.prems obtain j' where j': "j = Suc j'" "i' \<le> j'" "j' < length log"
      by (cases j) auto
    then have ne: "log \<noteq> []" by auto
    with Cons.prems(1) entry obtain b0 where b0: "getPageBatch (batch n pid) = Inr b0"
      "request_chain batch (Suc n) (merge_batch m b0) log"
      by (auto split: sum.splits)
    from Cons.prems(4) Suc have "map_has (snd (log ! i')) k" by simp
    from Cons.IH [OF b0(2) j'(2,3) this] j' entry b0(1) show ?thesis by simp
  qed
qed

lemma resolve_urls_keeps_keys:
  "resolve_urls batch pids st = (res, st') \<Longrightarrow> map_has (signedUrlMap st) k \<Longrightarrow>
     map_has (signedUrlMap st') k"
proof -
  assume run: "resolve_urls batch pids st = (res, st')" and k: "map_has (signedUrlMap st) k"
  from resolve_urls_final [OF run] obtain new where
    "request_chain batch (length (requests st)) (signedUrlMap st) new"
    "signedUrlMap st' = chain_result batch (length (requests st)) (signedUrlMap st) new"
    by blast
  with chain_result_keeps_keys [OF this(1) k] show ?thesis by simp
qed

lemma resolve_urls_count:
  "resolve_urls batch pids st = (None, st') \<Longrightarrow> \<not> map_has (signedUrlMap st') pid \<Longrightarrow>
     count_list (map fst (requests st')) pid
       = count_list (map fst (requests st)) pid + count_list pids pid"
proof (induction pids arbitrary: st)
  case Nil
  then show ?case by simp
next
  case (Cons x rest)
  show ?case
  proof (cases "map_has (signedUrlMap st) x")
    case True
    with Cons.prems have run: "resolve_urls batch rest st = (None, st')" by simp
    from resolve_urls_keeps_keys [OF run True] Cons.prems(2) have "x \<noteq> pid" by auto
    with Cons.IH [OF run Cons.prems(2)] show ?thesis by simp
  next
    case False
    show ?thesis
    proof (cases "getPageBatch (batch (length (requests st)) x)")
      case (Inl e)
      with False Cons.prems(1) show ?thesis by (simp add: Let_def)
    next
      case (Inr b)
      let ?st = "st\<lparr>requests := requests st @ [(x, signedUrlMap st)],
                    signedUrlMap := merge_batch (signedUrlMap st) b\<rparr>"
      from False Inr Cons.prems(1) have run: "resolve_urls batch rest ?st = (None, st')"
        by (simp add: Let_def)
      from Cons.IH [OF run Cons.prems(2)] show ?thesis by simp
    qed
  qed
qed

lemma resolve_urls_position:
  assumes run: "resolve_urls batch allPids st0 = (res, st)"
    and i: "i < length allPids"
    and visited: "resolve_urls batch (take i allPids) st0 = (None, s)"
  shows "take (length (requests s)) (requests st) = requests s"
    and "\<not> map_has (signedUrlMap s) (allPids ! i) \<Longrightarrow>
           length (requests s) < length (requests st) \<and>
           requests st ! length (requests s) = (allPids ! i, signedUrlMap s)"
    and "map_has (signedUrlMap s) (allPids ! i) \<Longrightarrow>
           resolve_urls batch (take (Suc i) allPids) st0 = (None, s)"
proof -
  from i have split: "allPids = take i allPids @ allPids ! i # drop (Suc i) allPids"
    by (simp add: id_take_nth_drop)
  from run have "resolve_urls batch (take i allPids @ allPids ! i # drop (Suc i) allPids) st0
      = (res, st)" using split by simp
  with visited have suffix: "resolve_urls batch (allPids ! i # drop (Suc i) allPids) s = (res, st)"
    by (simp add: resolve_urls_append)
  from resolve_urls_log [OF suffix] obtain new where new: "requests st = requests s @ new"
    by blast
  then show "take (length (requests s)) (requests st) = requests s" by simp
  show "length (requests s) < length (requests st) \<and>
           requests st ! length (requests s) = (allPids ! i, signedUrlMap s)"
    if nk: "\<not> map_has (signedUrlMap s) (allPids ! i)"
  proof (cases "getPageBatch (batch (length (requests s)) (allPids ! i))")
    case (Inl e)
    with nk suffix have "requests st = requests s @ [(allPids ! i, signedUrlMap s)]"
      by (auto simp: Let_def)
    then show ?thesis by simp
  next
    case (Inr b)
    let ?st = "s\<lparr>requests := requests s @ [(allPids ! i, signedUrlMap s)],
                    signedUrlMap := merge_batch (signedUrlMap s) b\<rparr>"
    from nk Inr suffix have "resolve_urls batch (drop (Suc i) allPids) ?st = (res, st)"
      by (simp add: Let_def)
    from resolve_urls_log [OF this] obtain new' where
      "requests st = (requests s @ [(allPids ! i, signedUrlMap s)]) @ new'" by auto
    then show ?thesis by (simp add: nth_append)
  qed
  show "resolve_urls batch (take (Suc i) allPids) st0 = (None, s)"
    if "map_has (signedUrlMap s) (allPids ! i)"
    using that visited i by (simp add: take_Suc_conv_app_nth resolve_urls_append)
qed

subsection \<open>The URLs of the mapping are truthy\<close>

lemma truthy_values_map_set:
  "truthy_values m \<Longrightarrow> truthy (Some v) \<Longrightarrow> truthy_values (map_set m k v)"
  by (induction m) auto

lemma truthy_values_collect_urls:
  "truthy_values m \<Longrightarrow> collect_urls m pages = Inr m' \<Longrightarrow> truthy_values m'"
proof (induction pages arbitrary: m)
  case Nil
  then show ?case by simp
next
  case (Cons page rest)
  from Cons.prems(2) obtain m1 where m1: "add_page m page = Inr m1" "collect_urls m1 rest = Inr m'"
    by (auto split: sum.splits)
  from m1(1) Cons.prems(1) have "truthy_values m1"
    by (cases "own_prop page ''src''")
       (auto simp: add_page_eq truthy_values_map_set split: if_splits)
  from Cons.IH [OF this m1(2)] show ?case .
qed

lemma truthy_values_getPageBatch: "getPageBatch r = Inr b \<Longrightarrow> truthy_values b"
proof (cases r)
  case Rejected
  assume "getPageBatch r = Inr b"
  with Rejected show ?thesis by simp
next
  case (Response r_ok r_status r_body)
  assume b: "getPageBatch r = Inr b"
  with Response obtain data where data: "r_body = Some data" "truthy (data_page data)"
       "iterate_pages (the (data_page data)) = Inr b"
    by (auto split: if_splits option.splits simp: Let_def)
  then obtain v where v: "data_page data = Some v" "iterate_pages v = Inr b"
    by (cases "data_page data") auto
  then show ?thesis
    by (cases v) (auto dest: truthy_values_collect_urls [rotated])
qed

lemma truthy_values_merge_batch:
  "truthy_values m \<Longrightarrow> truthy_values b \<Longrightarrow> truthy_values (merge_batch m b)"
  by (induction b arbitrary: m) (auto simp: truthy_values_map_set)

lemma truthy_values_resolve_urls:
  "truthy_values (signedUrlMap st) \<Longrightarrow> resolve_urls batch pids st = (res, st') \<Longrightarrow>
     truthy_values (signedUrlMap st')"
proof (induction pids arbitrary: st)
  case Nil
  then show ?case by simp
next
  case (Cons pid rest)
  show ?case
  proof (cases "map_has (signedUrlMap st) pid")
    case True
    with Cons show ?thesis by simp
  next
    case False
    show ?thesis
    proof (cases "getPageBatch (batch (length (requests st)) pid)")
      case (Inl e)
      with False Cons.prems show ?thesis by (auto simp: Let_def)
    next
      case (Inr b)
      let ?st = "st\<lparr>requests := requests st @ [(pid, signedUrlMap st)],
                    signedUrlMap := merge_batch (signedUrlMap st) b\<rparr>"
      from False Inr Cons.prems(2) have r: "resolve_urls batch rest ?st = (res, st')"
        by (simp add: Let_def)
      from Cons.prems(1) truthy_values_getPageBatch [OF Inr]
      have "truthy_values (signedUrlMap ?st)" by (simp add: truthy_values_merge_batch)
      from Cons.IH [OF this r] show ?thesis .
    qed
  qed
qed

lemma truthy_values_get: "truthy_values m \<Longrightarrow> truthy (map_get m q) \<longleftrightarrow> map_has m q"
proof (cases q)
  case None
  then show ?thesis by simp
next
  case (Some k)
  assume "truthy_values m"
  then show ?thesis unfolding Some by (induction m) (auto split: if_splits)
qed

lemma resolved_iff_key:
  assumes "resolve_urls batch allPids \<lparr>signedUrlMap = [], requests = []\<rparr> = (res, st)"
  shows "truthy (map_get (signedUrlMap st) pid) \<longleftrightarrow> map_has (signedUrlMap st) pid"
  using truthy_values_resolve_urls [OF _ assms] by (simp add: truthy_values_get)

subsection \<open>Decimal digits and their order\<close>

lemma length_fixed_digits [simp]: "length (fixed_digits w n) = w"
  by (induction w arbitrary: n) auto

lemma digit_char_0: "digit_char 0 = CHR ''0''"
  by code_simp

lemma fixed_digits_zero: "fixed_digits w 0 = replicate w CHR ''0''"
  by (induction w) (auto simp: digit_char_0 replicate_append_same)

lemma to_String_bound: "n < 10 ^ length (to_String n)"
proof (induction n rule: to_String.induct)
  case (1 n)
  show ?case
  proof (cases "n < 10")
    case True
    then show ?thesis by (simp add: to_String.simps [of n])
  next
    case False
    with 1 have "n div 10 < 10 ^ length (to_String (n div 10))" by simp
    then have "n < 10 * 10 ^ length (to_String (n div 10))" by simp
    with False show ?thesis by (simp add: to_String.simps [of n])
  qed
qed

lemma length_to_String_pos: "0 < length (to_String n)"
  by (simp add: to_String.simps [of n])

lemma length_to_String_le: "n < 10 ^ w \<Longrightarrow> 0 < w \<Longrightarrow> length (to_String n) \<le> w"
proof (induction n arbitrary: w rule: to_String.induct)
  case (1 n)
  show ?case
  proof (cases "n < 10")
    case True
    with 1(3) show ?thesis by (simp add: to_String.simps [of n] Suc_leI)
  next
    case False
    from 1(3) obtain w' where w': "w = Suc w'" by (cases w) auto
    from False 1(2) w' have "0 < w'" by (cases w') auto
    moreover from 1(2) w' have "n div 10 < 10 ^ w'" by simp
    ultimately have "length (to_String (n div 10)) \<le> w'" using 1(1) False by simp
    with False w' show ?thesis by (simp add: to_String.simps [of n])
  qed
qed

lemma padStart_fixed_digits:
  "n < 10 ^ w \<Longrightarrow> 0 < w \<Longrightarrow> padStart (to_String n) w CHR ''0'' = fixed_digits w n"
proof (induction n arbitrary: w rule: to_String.induct)
  case (1 n)
  from 1(3) obtain w' where w': "w = Suc w'" by (cases w) auto
  show ?case
  proof (cases "n < 10")
    case True
    then show ?thesis
      by (simp add: to_String.simps [of n] padStart_def w' fixed_digits_zero)
  next
    case False
    from False 1(2) w' have pos: "0 < w'" by (cases w') auto
    from 1(2) w' have lt: "n div 10 < 10 ^ w'" by simp
    from 1(1) [OF False lt pos]
    have IH: "padStart (to_String (n div 10)) w' CHR ''0'' = fixed_digits w' (n div 10)" .
    from False have "padStart (to_String n) w CHR ''0''
        = padStart (to_String (n div 10)) w' CHR ''0'' @ [digit_char (n mod 10)]"
      by (simp add: to_String.simps [of n] padStart_def w')
    with IH show ?thesis by (simp add: w')
  qed
qed

lemma less_append_same_length:
  fixes xs ys :: "'a::linorder list"
  shows "length xs = length ys \<Longrightarrow> xs @ us < ys @ vs \<longleftrightarrow> xs < ys \<or> (xs = ys \<and> us < vs)"
  by (induction xs ys rule: list_induct2) auto

lemma less_same_prefix:
  fixes xs :: "'a::linorder list"
  shows "xs @ us < xs @ vs \<longleftrightarrow> us < vs"
  by (induction xs) auto

lemma digit_char_less: "a < b \<Longrightarrow> b < 10 \<Longrightarrow> digit_char a < digit_char b"
  by (simp add: digit_char_def less_char_def)

lemma fixed_digits_less:
  "a < b \<Longrightarrow> b < 10 ^ w \<Longrightarrow> fixed_digits w a < fixed_digits w b"
proof (induction w arbitrary: a b)
  case 0
  then show ?case by simp
next
  case (Suc w)
  from Suc.prems have le: "a div 10 \<le> b div 10" by (simp add: div_le_mono)
  from Suc.prems have lt: "b div 10 < 10 ^ w" by simp
  show ?case
  proof (cases "a div 10 < b div 10")
    case True
    from Suc.IH [OF True lt] show ?thesis
      by (simp add: less_append_same_length)
  next
    case False
    with le have eq: "a div 10 = b div 10" by simp
    with Suc.prems(1) have "a mod 10 < b mod 10"
      by (metis div_mult_mod_eq nat_add_left_cancel_less)
    then have "digit_char (a mod 10) < digit_char (b mod 10)"
      by (intro digit_char_less) auto
    with eq show ?thesis by (simp add: less_same_prefix)
  qed
qed

lemma fixed_digits_less_iff:
  assumes "a < 10 ^ w" "b < 10 ^ w"
  shows "fixed_digits w a < fixed_digits w b \<longleftrightarrow> a < b"
proof
  assume "a < b"
  with assms show "fixed_digits w a < fixed_digits w b" by (simp add: fixed_digits_less)
next
  assume l: "fixed_digits w a < fixed_digits w b"
  show "a < b"
  proof (rule ccontr)
    assume "\<not> a < b"
    then consider "a = b" | "b < a" by (cases a b rule: linorder_cases) auto
    then show False
    proof cases
      case 1
      with l show False by simp
    next
      case 2
      with assms have "fixed_digits w b < fixed_digits w a" by (simp add: fixed_digits_less)
      with l show False by simp
    qed
  qed
qed

subsection \<open>The job list\<close>

lemma zip_upt_nth: "zip xs [0 ..< length xs] = map (\<lambda>i. (xs ! i, i)) [0 ..< length xs]"
  by (rule nth_equalityI) auto

lemma filter_Boolean_map:
  "filter_Boolean (map g is) = map (\<lambda>i. the (g i)) (filter (\<lambda>i. g i \<noteq> None) is)"
  by (induction "is") (auto simp: filter_Boolean_def)

lemma make_job_eq:
  "make_job prefix m (length (to_String n)) pid i =
     (if truthy (map_get m pid)
      then Some \<lparr>url = the (map_get m pid), filename = page_filename prefix n i\<rparr>
      else None)"
  by (simp add: make_job_def page_filename_def Let_def)

lemma build_jobs_eq:
  "build_jobs prefix allPids m =
     map (\<lambda>i. \<lparr>url = the (map_get m (allPids ! i)),
               filename = page_filename prefix (length allPids) i\<rparr>)
         (filter (\<lambda>i. truthy (map_get m (allPids ! i))) [0 ..< length allPids])"
proof -
  have "build_jobs prefix allPids m =
      filter_Boolean (map (\<lambda>i. make_job prefix m (length (to_String (length allPids)))
                                  (allPids ! i) i) [0 ..< length allPids])"
    by (simp add: build_jobs_def Let_def zip_upt_nth comp_def)
  also have "\<dots> = map (\<lambda>i. \<lparr>url = the (map_get m (allPids ! i)),
               filename = page_filename prefix (length allPids) i\<rparr>)
         (filter (\<lambda>i. truthy (map_get m (allPids ! i))) [0 ..< length allPids])"
    unfolding filter_Boolean_map make_job_eq
    by (rule map_cong [OF filter_cong]) auto
  finally show ?thesis .
qed

lemma page_number_fixed:
  assumes "i < n"
  shows "padStart (to_String (i + 1)) (length (to_String n)) CHR ''0''
           = fixed_digits (length (to_String n)) (i + 1)"
proof -
  from assms to_String_bound [of n] have "i + 1 < 10 ^ length (to_String n)" by simp
  then show ?thesis
    by (rule padStart_fixed_digits) (rule length_to_String_pos)
qed

lemma page_filename_less_iff:
  assumes "i < n" "j < n"
  shows "page_filename prefix n i < page_filename prefix n j \<longleftrightarrow> i < j"
proof -
  let ?w = "length (to_String n)"
  from assms to_String_bound [of n]
  have b: "i + 1 < 10 ^ ?w" "j + 1 < 10 ^ ?w" by simp_all
  have "page_filename prefix n i < page_filename prefix n j
      \<longleftrightarrow> fixed_digits ?w (i + 1) @ ''.png'' < fixed_digits ?w (j + 1) @ ''.png''"
    unfolding page_filename_def page_number_fixed [OF assms(1)] page_number_fixed [OF assms(2)]
    using less_same_prefix [of "prefix @ ''-''"] by simp
  also have "\<dots> \<longleftrightarrow> fixed_digits ?w (i + 1) < fixed_digits ?w (j + 1)
       \<or> fixed_digits ?w (i + 1) = fixed_digits ?w (j + 1) \<and> ''.png'' < ''.png''"
    by (rule less_append_same_length) simp
  also have "\<dots> \<longleftrightarrow> i < j"
    using fixed_digits_less_iff [OF b] by simp
  finally show ?thesis .
qed

lemma unresolved_count:
  "length (filter (\<lambda>i. P (xs ! i)) [0 ..< length xs]) = length (filter P xs)"
proof -
  have "filter P xs = filter P (map (\<lambda>i. xs ! i) [0 ..< length xs])"
    by (simp add: map_nth)
  also have "\<dots> = map (\<lambda>i. xs ! i) (filter (\<lambda>i. P (xs ! i)) [0 ..< length xs])"
    by (simp add: filter_map comp_def)
  finally show ?thesis by simp
qed

lemma filenames_sorted:
  "sorted_wrt (<) (map filename (build_jobs prefix allPids m))"
proof -
  let ?is = "filter (\<lambda>i. truthy (map_get m (allPids ! i))) [0 ..< length allPids]"
  have "sorted_wrt (<) ?is"
    by (rule sorted_wrt_filter) simp
  then have "sorted_wrt (\<lambda>i j. i < j \<and> i < length allPids \<and> j < length allPids) ?is"
    by (rule sorted_wrt_mono_rel [rotated]) auto
  then have "sorted_wrt (\<lambda>i j. page_filename prefix (length allPids) i
                              < page_filename prefix (length allPids) j) ?is"
    by (rule sorted_wrt_mono_rel [rotated]) (simp add: page_filename_less_iff)
  then show ?thesis
    by (simp add: build_jobs_eq sorted_wrt_map comp_def)
qed

lemma sorted_wrt_less_positions:
  fixes xs :: "nat list"
  assumes "sorted_wrt (<) xs" "i \<in> set xs" "j \<in> set xs" "i < j"
  shows "\<exists>a b. a < b \<and> b < length xs \<and> xs ! a = i \<and> xs ! b = j"
proof -
  from assms(2,3) obtain a b where ab: "a < length xs" "xs ! a = i" "b < length xs" "xs ! b = j"
    by (auto simp: in_set_conv_nth)
  have "a < b"
  proof (rule ccontr)
    assume "\<not> a < b"
    then consider "a = b" | "b < a" by (cases a b rule: linorder_cases) auto
    then show False
    proof cases
      case 1
      with ab assms(4) show False by simp
    next
      case 2
      from sorted_wrt_nth_less [OF assms(1) 2 ab(1)] ab assms(4) show False by simp
    qed
  qed
  with ab show ?thesis by blast
qed

subsection \<open>The download loop\<close>

lemma downloadFile_Inr: "downloadFile r j = Inr f \<Longrightarrow> f = filename j"
  by (cases r) (auto split: if_splits)

lemma download_all_eq:
  "download_all images i jobs st =
     st\<lparr>attempted := attempted st @ jobs,
        saved := saved st @
          map (filename \<circ> snd)
            (filter (\<lambda>ij. \<not> download_fails images ij) (zip [i ..< i + length jobs] jobs)),
        failedDownloads := failedDownloads st @
          map (filename \<circ> snd)
            (filter (download_fails images) (zip [i ..< i + length jobs] jobs))\<rparr>"
proof (induction jobs arbitrary: i st)
  case Nil
  show ?case by simp
next
  case (Cons j jobs)
  have upt: "[i ..< i + length (j # jobs)] = i # [Suc i ..< Suc i + length jobs]"
    using upt_conv_Cons [of i "i + length (j # jobs)"] by simp
  show ?case
  proof (cases "downloadFile (images i j) j")
    case (Inl e)
    then show ?thesis
      unfolding upt by (simp add: Cons.IH download_fails_def)
  next
    case (Inr f)
    with downloadFile_Inr [OF Inr] show ?thesis
      unfolding upt by (simp add: Cons.IH download_fails_def)
  qed
qed

subsection \<open>Evaluated examples\<close>

lemma build_jobs_example:
  "build_jobs ''X''
     [Some (JStr ''p1''), Some (JStr ''p2''), Some (JStr ''p3''), Some (JStr ''p4''),
      Some (JStr ''p5''), Some (JStr ''p6''), Some (JStr ''p7''), Some (JStr ''p8''),
      Some (JStr ''p9''), Some (JStr ''p10'')]
     [(JStr ''p2'', JStr ''u2''), (JStr ''p10'', JStr ''u10'')]
   = [\<lparr>url = JStr ''u2'', filename = ''X-02.png''\<rparr>,
      \<lparr>url = JStr ''u10'', filename = ''X-10.png''\<rparr>]"
  by code_simp

lemma duplicate_example:
  "build_jobs ''X'' [Some (JStr ''p1''), Some (JStr ''p2''), Some (JStr ''p1'')]
      [(JStr ''p1'', JStr ''u1'')]
   = [\<lparr>url = JStr ''u1'', filename = ''X-1.png''\<rparr>, \<lparr>url = JStr ''u1'', filename = ''X-3.png''\<rparr>]
   \<and> page_filename ''X'' 3 0 = ''X-1.png'' \<and> page_filename ''X'' 3 2 = ''X-3.png''"
  by code_simp

lemma download_all_example:
  "download_all second_image_fails 0
     [\<lparr>url = JStr ''u1'', filename = ''X-1.png''\<rparr>, \<lparr>url = JStr ''u2'', filename = ''X-2.png''\<rparr>,
      \<lparr>url = JStr ''u3'', filename = ''X-3.png''\<rparr>]
     \<lparr>attempted = [], saved = [], failedDownloads = []\<rparr>
   = \<lparr>attempted =
        [\<lparr>url = JStr ''u1'', filename = ''X-1.png''\<rparr>, \<lparr>url = JStr ''u2'', filename = ''X-2.png''\<rparr>,
         \<lparr>url = JStr ''u3'', filename = ''X-3.png''\<rparr>],
      saved = [''X-1.png'', ''X-3.png''],
      failedDownloads = [''X-2.png'']\<rparr>"
  by code_simp



lemma digit_char_values:
  "digit_char (Suc 0) = CHR ''1''" "digit_char (Suc (Suc 0)) = CHR ''2''"
  "digit_char (Suc (Suc (Suc 0))) = CHR ''3''"
  by code_simp+

lemma main_example:
  "main \<lparr>FILENAME_PREFIX = ''X'', BOOK_ID = Some ''abc123''\<rparr> three_page_provider
   = \<lparr>manifest_requested = True,
      batch_requests =
        [(Some (JStr ''p1''), []),
         (Some (JStr ''p2''), [(JStr ''p1'', JStr ''u-p1'')]),
         (Some (JStr ''p3''), [(JStr ''p1'', JStr ''u-p1''), (JStr ''p2'', JStr ''u-p2'')])],
      downloadJobs =
        [\<lparr>url = JStr ''u-p1'', filename = ''X-1.png''\<rparr>,
         \<lparr>url = JStr ''u-p2'', filename = ''X-2.png''\<rparr>,
         \<lparr>url = JStr ''u-p3'', filename = ''X-3.png''\<rparr>],
      unresolved_warning = None,
      downloads_attempted =
        [\<lparr>url = JStr ''u-p1'', filename = ''X-1.png''\<rparr>,
         \<lparr>url = JStr ''u-p2'', filename = ''X-2.png''\<rparr>,
         \<lparr>url = JStr ''u-p3'', filename = ''X-3.png''\<rparr>],
      files_saved = [''X-1.png'', ''X-3.png''],
      run_summary = Some \<lparr>succeeded = 2, total = 3, failed = [''X-2.png'']\<rparr>,
      critical_error = None\<rparr>"
    by (simp add: main_def three_page_provider_def single_page_batches_def second_image_fails_def
        data_page_def map_pid_eq add_page_eq same_value_zero_def build_jobs_eq page_filename_def
        padStart_def to_String.simps digit_char_values summarise_def download_all_eq
        download_fails_def Let_def)

lemma single_page_run:
  "resolve_urls single_page_batches [Some (JStr ''p1''), Some (JStr ''p2''), Some (JStr ''p1'')]
       \<lparr>signedUrlMap = [], requests = []\<rparr>
     = (None, \<lparr>signedUrlMap = [(JStr ''p1'', JStr ''u-p1''), (JStr ''p2'', JStr ''u-p2'')],
               requests = [(Some (JStr ''p1''), []),
                           (Some (JStr ''p2''), [(JStr ''p1'', JStr ''u-p1'')])]\<rparr>)"
  by (simp add: single_page_batches_def data_page_def add_page_eq same_value_zero_def)

lemma single_page_prefix_run:
  "resolve_urls single_page_batches
       (take 2 [Some (JStr ''p1''), Some (JStr ''p2''), Some (JStr ''p1'')])
       \<lparr>signedUrlMap = [], requests = []\<rparr>
     = (None, \<lparr>signedUrlMap = [(JStr ''p1'', JStr ''u-p1''), (JStr ''p2'', JStr ''u-p2'')],
               requests = [(Some (JStr ''p1''), []),
                           (Some (JStr ''p2''), [(JStr ''p1'', JStr ''u-p1'')])]\<rparr>)"
  by (simp add: single_page_batches_def data_page_def add_page_eq same_value_zero_def
        take_Suc_conv_app_nth numeral_2_eq_2)

lemma single_page_answered:
  "getPageBatch (single_page_batches n pid) = Inr b \<Longrightarrow> map_has b pid"
  by (auto simp: single_page_batches_def data_page_def add_page_eq same_value_zero_def
        split: option.splits json.splits if_splits)

lemma empty_batches_run:
  "resolve_urls empty_batches [Some (JStr ''p1''), Some (JStr ''p1'')]
       \<lparr>signedUrlMap = [], requests = []\<rparr>
     = (None, \<lparr>signedUrlMap = [],
               requests = [(Some (JStr ''p1''), []), (Some (JStr ''p1''), [])]\<rparr>)"
  by (simp add: empty_batches_def data_page_def)

lemma overlapping_run:
  "resolve_urls overlapping_batches [Some (JStr ''p1''), Some (JStr ''p2'')]
       \<lparr>signedUrlMap = [], requests = []\<rparr>
     = (None, \<lparr>signedUrlMap = [(JStr ''p1'', JStr ''u1b''), (JStr ''p2'', JStr ''u2'')],
               requests = [(Some (JStr ''p1''), []),
                           (Some (JStr ''p2''), [(JStr ''p1'', JStr ''u1'')])]\<rparr>)"
  by (simp add: overlapping_batches_def data_page_def add_page_eq same_value_zero_def)

lemma overlapping_second_batch:
  "getPageBatch (overlapping_batches 1 (Some (JStr ''p2'')))
     = Inr [(JStr ''p1'', JStr ''u1b''), (JStr ''p2'', JStr ''u2'')]"
  by (simp add: overlapping_batches_def data_page_def add_page_eq same_value_zero_def)

section \<open>The claims\<close>

subsection \<open>Discovery\<close>

text \<open>
  Claim C2, as amended. In every run of the URL-resolution loop, every batch request is
  issued for an identifier that is no key of the URL mapping at that moment, and for an
  identifier that no earlier answered batch of the run contained. At every position of
  the manifest that the loop visits, it issues a request if the identifier is no key of
  the mapping at that moment, and none if it is a key; so in a run that no error stops,
  an identifier that is never resolved is requested once for each of its positions. If
  every batch answered in the run contains the identifier it was requested for, then no
  identifier is requested twice, so there are at most as many requests as distinct
  identifiers in the manifest.
\<close>

theorem resolve_urls_request_log:
  assumes run: "resolve_urls batch allPids \<lparr>signedUrlMap = [], requests = []\<rparr> = (res, st)"
  shows "(\<forall>(pid, snapshot) \<in> set (requests st). \<not> map_has snapshot pid)
    \<and> (\<forall>i j b. j < i \<and> i < length (requests st) \<and>
          getPageBatch (batch j (fst (requests st ! j))) = Inr b \<longrightarrow>
          \<not> map_has b (fst (requests st ! i)))
    \<and> (\<forall>i s. i < length allPids \<and>
          resolve_urls batch (take i allPids) \<lparr>signedUrlMap = [], requests = []\<rparr> = (None, s) \<longrightarrow>
          take (length (requests s)) (requests st) = requests s
          \<and> (if map_has (signedUrlMap s) (allPids ! i)
              then resolve_urls batch (take (Suc i) allPids) \<lparr>signedUrlMap = [], requests = []\<rparr>
                     = (None, s)
              else length (requests s) < length (requests st)
                   \<and> requests st ! length (requests s) = (allPids ! i, signedUrlMap s)))
    \<and> (res = None \<longrightarrow>
          (\<forall>pid. \<not> map_has (signedUrlMap st) pid \<longrightarrow>
             count_list (map fst (requests st)) pid = count_list allPids pid))
    \<and> ((\<forall>n b. n < length (requests st) \<and>
            getPageBatch (batch n (fst (requests st ! n))) = Inr b \<longrightarrow>
            map_has b (fst (requests st ! n))) \<longrightarrow>
          distinct (map fst (requests st)) \<and> length (requests st) \<le> card (set allPids))"
proof -
  from resolve_urls_log [OF run]
  have chain: "request_chain batch 0 [] (requests st)"
    and sub: "fst ` set (requests st) \<subseteq> set allPids" by auto
  have 1: "\<forall>(pid, snapshot) \<in> set (requests st). \<not> map_has snapshot pid"
    using request_chain_not_key [OF chain] by auto
  have 2: "\<not> map_has b (fst (requests st ! i))"
    if "j < i" "i < length (requests st)"
       "getPageBatch (batch j (fst (requests st ! j))) = Inr b" for i j b
  proof
    assume "map_has b (fst (requests st ! i))"
    with request_chain_earlier_batches [OF chain that(1,2), of b] that(3)
    have "map_has (snd (requests st ! i)) (fst (requests st ! i))" by simp
    moreover from that(2) have "requests st ! i \<in> set (requests st)" by simp
    ultimately show False
      using request_chain_not_key [OF chain, of "fst (requests st ! i)" "snd (requests st ! i)"]
      by simp
  qed
  have 3: "take (length (requests s)) (requests st) = requests s
          \<and> (if map_has (signedUrlMap s) (allPids ! i)
              then resolve_urls batch (take (Suc i) allPids) \<lparr>signedUrlMap = [], requests = []\<rparr>
                     = (None, s)
              else length (requests s) < length (requests st)
                   \<and> requests st ! length (requests s) = (allPids ! i, signedUrlMap s))"
    if "i < length allPids"
      "resolve_urls batch (take i allPids) \<lparr>signedUrlMap = [], requests = []\<rparr> = (None, s)"
    for i s
    using resolve_urls_position [OF run that] by simp
  have 4: "count_list (map fst (requests st)) pid = count_list allPids pid"
    if "res = None" "\<not> map_has (signedUrlMap st) pid" for pid
    using resolve_urls_count [of batch allPids _ st pid] run that by simp
  have 5: "distinct (map fst (requests st)) \<and> length (requests st) \<le> card (set allPids)"
    if a: "\<forall>n b. n < length (requests st) \<and>
            getPageBatch (batch n (fst (requests st ! n))) = Inr b \<longrightarrow>
            map_has b (fst (requests st ! n))"
  proof -
    from a request_chain_distinct_answered [OF chain] have d: "distinct (map fst (requests st))"
      by simp
    from distinct_card [OF d]
    have "length (requests st) = card (set (map fst (requests st)))"
      by simp
    also from sub have "\<dots> \<le> card (set allPids)"
      by (simp add: card_mono)
    finally show ?thesis using d by simp
  qed
  from 1 2 3 4 5 show ?thesis by blast
qed

theorem resolve_urls_request_log_witness:
  "resolve_urls single_page_batches [Some (JStr ''p1''), Some (JStr ''p2''), Some (JStr ''p1'')]
       \<lparr>signedUrlMap = [], requests = []\<rparr>
     = (None, \<lparr>signedUrlMap = [(JStr ''p1'', JStr ''u-p1''), (JStr ''p2'', JStr ''u-p2'')],
               requests = [(Some (JStr ''p1''), []),
                           (Some (JStr ''p2''), [(JStr ''p1'', JStr ''u-p1'')])]\<rparr>)
   \<and> distinct [Some (JStr ''p1''), Some (JStr ''p2'')]
   \<and> (2 :: nat) \<le> card (set [Some (JStr ''p1''), Some (JStr ''p2''), Some (JStr ''p1'')])
   \<and> resolve_urls single_page_batches
       (take 3 [Some (JStr ''p1''), Some (JStr ''p2''), Some (JStr ''p1'')])
       \<lparr>signedUrlMap = [], requests = []\<rparr>
     = (None, \<lparr>signedUrlMap = [(JStr ''p1'', JStr ''u-p1''), (JStr ''p2'', JStr ''u-p2'')],
               requests = [(Some (JStr ''p1''), []),
                           (Some (JStr ''p2''), [(JStr ''p1'', JStr ''u-p1'')])]\<rparr>)
   \<and> count_list [Some (JStr ''p1''), Some (JStr ''p1'')] (Some (JStr ''p1'')) = (2 :: nat)
   \<and> count_list (map fst [(Some (JStr ''p1''), []), (Some (JStr ''p1''), [])])
        (Some (JStr ''p1''))
       = count_list [Some (JStr ''p1''), Some (JStr ''p1'')] (Some (JStr ''p1''))"
proof -
  let ?pids = "[Some (JStr ''p1''), Some (JStr ''p2''), Some (JStr ''p1'')]"
  let ?st = "\<lparr>signedUrlMap = [(JStr ''p1'', JStr ''u-p1''), (JStr ''p2'', JStr ''u-p2'')],
               requests = [(Some (JStr ''p1''), []),
                           (Some (JStr ''p2''), [(JStr ''p1'', JStr ''u-p1'')])]\<rparr>"
  let ?st2 = "\<lparr>signedUrlMap = [],
               requests = [(Some (JStr ''p1''), []), (Some (JStr ''p1''), [])]\<rparr>"
  note c = resolve_urls_request_log [OF single_page_run]
  note c2 = resolve_urls_request_log [OF empty_batches_run]
  have answered: "\<forall>n b. n < length (requests ?st) \<and>
        getPageBatch (single_page_batches n (fst (requests ?st ! n))) = Inr b \<longrightarrow>
        map_has b (fst (requests ?st ! n))"
    using single_page_answered by blast
  from c answered
  have d: "distinct (map fst (requests ?st)) \<and> length (requests ?st) \<le> card (set ?pids)"
    by blast
  from c have "2 < length ?pids \<and>
        resolve_urls single_page_batches (take 2 ?pids) \<lparr>signedUrlMap = [], requests = []\<rparr>
          = (None, ?st) \<longrightarrow>
        (if map_has (signedUrlMap ?st) (?pids ! 2)
         then resolve_urls single_page_batches (take (Suc 2) ?pids)
                \<lparr>signedUrlMap = [], requests = []\<rparr> = (None, ?st)
         else length (requests ?st) < length (requests ?st)
              \<and> requests ?st ! length (requests ?st) = (?pids ! 2, signedUrlMap ?st))"
    by blast
  with single_page_prefix_run
  have p: "resolve_urls single_page_batches (take 3 ?pids) \<lparr>signedUrlMap = [], requests = []\<rparr>
      = (None, ?st)"
    by (simp add: same_value_zero_def)
  from c2 have "\<not> map_has (signedUrlMap ?st2) (Some (JStr ''p1'')) \<longrightarrow>
      count_list (map fst (requests ?st2)) (Some (JStr ''p1''))
        = count_list [Some (JStr ''p1''), Some (JStr ''p1'')] (Some (JStr ''p1''))"
    by blast
  then have n: "count_list (map fst [(Some (JStr ''p1''), []), (Some (JStr ''p1''), [])])
        (Some (JStr ''p1''))
       = count_list [Some (JStr ''p1''), Some (JStr ''p1'')] (Some (JStr ''p1''))"
    by simp
  from d have d': "distinct [Some (JStr ''p1''), Some (JStr ''p2'')]"
    "(2 :: nat) \<le> card (set ?pids)" by simp_all
  have "count_list [Some (JStr ''p1''), Some (JStr ''p1'')] (Some (JStr ''p1'')) = (2 :: nat)"
    by simp
  with single_page_run d' p n show ?thesis by blast
qed

theorem repeated_identifier_counterexample:
  "resolve_urls empty_batches [Some (JStr ''p1''), Some (JStr ''p1'')]
       \<lparr>signedUrlMap = [], requests = []\<rparr>
     = (None, \<lparr>signedUrlMap = [],
               requests = [(Some (JStr ''p1''), []), (Some (JStr ''p1''), [])]\<rparr>)
   \<and> count_list (map fst [(Some (JStr ''p1''), []), (Some (JStr ''p1''), [])]) (Some (JStr ''p1''))
       = (2 :: nat)"
  by (simp add: empty_batches_def data_page_def)

text \<open>
  Claim C3, as amended. In every run, the URL mapping is empty at the first batch request,
  and it is empty at the end of a run without requests.
  After the merge of an answered batch, a key that the batch contains has the batch's
  URL, whatever its value was before (the latest resolution wins), and a key that the
  batch does not contain has the value it had; a failed request is the last one and
  leaves the mapping as it was. No merge removes a key: an identifier that is a key at
  one request is a key at every later request and in the final mapping.
\<close>

theorem resolve_urls_latest_wins:
  assumes run: "resolve_urls batch allPids \<lparr>signedUrlMap = [], requests = []\<rparr> = (res, st)"
  shows "(\<forall>i b pid. i < length (requests st) \<and>
            getPageBatch (batch i (fst (requests st ! i))) = Inr b \<longrightarrow>
            map_get (if Suc i < length (requests st) then snd (requests st ! Suc i)
                     else signedUrlMap st) pid
              = (if map_has b pid then map_get b pid else map_get (snd (requests st ! i)) pid))
    \<and> (\<forall>i e. i < length (requests st) \<and>
            getPageBatch (batch i (fst (requests st ! i))) = Inl e \<longrightarrow>
            Suc i = length (requests st) \<and> signedUrlMap st = snd (requests st ! i))
    \<and> (\<forall>i j pid. i \<le> j \<and> j < length (requests st) \<and> map_has (snd (requests st ! i)) pid \<longrightarrow>
            map_has (snd (requests st ! j)) pid \<and> map_has (signedUrlMap st) pid)
    \<and> (requests st = [] \<longrightarrow> signedUrlMap st = [])
    \<and> (requests st \<noteq> [] \<longrightarrow> snd (requests st ! 0) = [])"
proof -
  from resolve_urls_final [OF run]
  have chain: "request_chain batch 0 [] (requests st)"
    and final: "signedUrlMap st = chain_result batch 0 [] (requests st)" by auto
  have 1: "map_get (if Suc i < length (requests st) then snd (requests st ! Suc i)
                     else signedUrlMap st) pid
              = (if map_has b pid then map_get b pid else map_get (snd (requests st ! i)) pid)"
    if "i < length (requests st)" "getPageBatch (batch i (fst (requests st ! i))) = Inr b"
    for i b pid
  proof -
    from request_chain_after [OF chain that(1), of b] that(2)
    have "(if Suc i < length (requests st) then snd (requests st ! Suc i) else signedUrlMap st)
        = merge_batch (snd (requests st ! i)) b"
      by (simp add: final split: if_splits)
    then show ?thesis
      by (simp only: map_get_merge_batch [OF distinct_keys_getPageBatch [OF that(2)]])
  qed
  have 2: "Suc i = length (requests st) \<and> signedUrlMap st = snd (requests st ! i)"
    if "i < length (requests st)" "getPageBatch (batch i (fst (requests st ! i))) = Inl e"
    for i e
    using request_chain_failed [OF chain that(1), of e] that(2) by (simp add: final)
  have 3: "map_has (snd (requests st ! j)) pid \<and> map_has (signedUrlMap st) pid"
    if "i \<le> j" "j < length (requests st)" "map_has (snd (requests st ! i)) pid" for i j pid
    using request_chain_keys_stay [OF chain that] by (simp add: final)
  have 4: "signedUrlMap st = []" if "requests st = []"
    using that final by simp
  have 5: "snd (requests st ! 0) = []" if "requests st \<noteq> []"
    using that chain by (cases "requests st") auto
  from 1 2 3 4 5 show ?thesis by blast
qed

theorem resolve_urls_latest_wins_witness:
  "getPageBatch (overlapping_batches 1 (Some (JStr ''p2'')))
     = Inr [(JStr ''p1'', JStr ''u1b''), (JStr ''p2'', JStr ''u2'')]
   \<and> map_has [(JStr ''p1'', JStr ''u1'')] (Some (JStr ''p1''))
   \<and> map_get [(JStr ''p1'', JStr ''u1b''), (JStr ''p2'', JStr ''u2'')] (Some (JStr ''p1''))
       = Some (JStr ''u1b'')
   \<and> map_has [(JStr ''p1'', JStr ''u1b''), (JStr ''p2'', JStr ''u2'')] (Some (JStr ''p1''))"
proof -
  let ?st = "\<lparr>signedUrlMap = [(JStr ''p1'', JStr ''u1b''), (JStr ''p2'', JStr ''u2'')],
               requests = [(Some (JStr ''p1''), []),
                           (Some (JStr ''p2''), [(JStr ''p1'', JStr ''u1'')])]\<rparr>"
  let ?b = "[(JStr ''p1'', JStr ''u1b''), (JStr ''p2'', JStr ''u2'')]"
  note c = resolve_urls_latest_wins [OF overlapping_run]
  have h: "(1 :: nat) < length (requests ?st)
      \<and> getPageBatch (overlapping_batches 1 (fst (requests ?st ! 1))) = Inr ?b"
    using overlapping_second_batch by simp
  from c have "(1 :: nat) < length (requests ?st)
      \<and> getPageBatch (overlapping_batches 1 (fst (requests ?st ! 1))) = Inr ?b \<longrightarrow>
      map_get (if Suc 1 < length (requests ?st) then snd (requests ?st ! Suc 1)
               else signedUrlMap ?st) (Some (JStr ''p1''))
        = (if map_has ?b (Some (JStr ''p1'')) then map_get ?b (Some (JStr ''p1''))
           else map_get (snd (requests ?st ! 1)) (Some (JStr ''p1'')))"
    by blast
  with h have g: "map_get ?b (Some (JStr ''p1'')) = Some (JStr ''u1b'')"
    by (simp add: same_value_zero_def)
  have k: "(1 :: nat) \<le> 1 \<and> (1 :: nat) < length (requests ?st)
      \<and> map_has (snd (requests ?st ! 1)) (Some (JStr ''p1''))"
    by (simp add: same_value_zero_def)
  from c have "(1 :: nat) \<le> 1 \<and> (1 :: nat) < length (requests ?st)
      \<and> map_has (snd (requests ?st ! 1)) (Some (JStr ''p1'')) \<longrightarrow>
      map_has (snd (requests ?st ! 1)) (Some (JStr ''p1''))
      \<and> map_has (signedUrlMap ?st) (Some (JStr ''p1''))"
    by blast
  with k have "map_has [(JStr ''p1'', JStr ''u1'')] (Some (JStr ''p1''))"
    "map_has ?b (Some (JStr ''p1''))" by simp_all
  with overlapping_second_batch g show ?thesis by blast
qed

theorem later_batch_overwrites_counterexample:
  "resolve_urls overlapping_batches [Some (JStr ''p1''), Some (JStr ''p2'')]
       \<lparr>signedUrlMap = [], requests = []\<rparr>
     = (None, \<lparr>signedUrlMap = [(JStr ''p1'', JStr ''u1b''), (JStr ''p2'', JStr ''u2'')],
               requests = [(Some (JStr ''p1''), []),
                           (Some (JStr ''p2''), [(JStr ''p1'', JStr ''u1'')])]\<rparr>)
   \<and> map_get [(JStr ''p1'', JStr ''u1'')] (Some (JStr ''p1'')) = Some (JStr ''u1'')
   \<and> map_get [(JStr ''p1'', JStr ''u1b''), (JStr ''p2'', JStr ''u2'')] (Some (JStr ''p1''))
       = Some (JStr ''u1b'')
   \<and> JStr ''u1b'' \<noteq> JStr ''u1''"
  by (simp add: overlapping_batches_def data_page_def add_page_eq same_value_zero_def)







text \<open>
  Claim C10. An element of the page array other than \<^verbatim>\<open>null\<close> adds its pair to the
  mapping only when its \<^verbatim>\<open>pid\<close> and its \<^verbatim>\<open>src\<close> are both truthy. An element with a
  falsy \<^verbatim>\<open>pid\<close> or \<^verbatim>\<open>src\<close> is treated as an element with neither property, and as if
  it were not in the array. Every pair of the returned mapping comes from an element whose
  two properties are truthy.
\<close>

theorem add_page_truthy_only:
  "(page \<noteq> JNull \<longrightarrow>
      add_page urlMap page =
        Inr (if truthy (own_prop page ''pid'') \<and> truthy (own_prop page ''src'')
             then map_set urlMap (the (own_prop page ''pid'')) (the (own_prop page ''src''))
             else urlMap))
   \<and> (page \<noteq> JNull \<and> \<not> (truthy (own_prop page ''pid'') \<and> truthy (own_prop page ''src'')) \<longrightarrow>
        add_page urlMap page = add_page urlMap (JObj [])
        \<and> collect_urls urlMap (before @ page # after) = collect_urls urlMap (before @ after))
   \<and> (collect_urls [] pages = Inr batchMap \<longrightarrow>
        (\<forall>(k, v) \<in> set batchMap. \<exists>p \<in> set pages.
            own_prop p ''pid'' = Some k \<and> own_prop p ''src'' = Some v \<and>
            truthy (Some k) \<and> truthy (Some v)))"
proof (intro conjI impI)
  assume "page \<noteq> JNull"
  then show "add_page urlMap page =
        Inr (if truthy (own_prop page ''pid'') \<and> truthy (own_prop page ''src'')
             then map_set urlMap (the (own_prop page ''pid'')) (the (own_prop page ''src''))
             else urlMap)"
    by (simp add: add_page_eq)
next
  assume a: "page \<noteq> JNull \<and> \<not> (truthy (own_prop page ''pid'') \<and> truthy (own_prop page ''src''))"
  then show "add_page urlMap page = add_page urlMap (JObj [])"
    by (auto simp: add_page_eq)
  from a show "collect_urls urlMap (before @ page # after) = collect_urls urlMap (before @ after)"
    by (auto simp: collect_urls_append add_page_eq split: sum.splits)
next
  assume "collect_urls [] pages = Inr batchMap"
  from collect_urls_entries [OF this]
  show "\<forall>(k, v) \<in> set batchMap. \<exists>p \<in> set pages.
            own_prop p ''pid'' = Some k \<and> own_prop p ''src'' = Some v \<and>
            truthy (Some k) \<and> truthy (Some v)"
    by auto
qed

theorem add_page_truthy_only_witness:
  "add_page [] (JObj [(''pid'', JStr ''''), (''src'', JStr ''u1'')]) = Inr []
   \<and> add_page [] (JObj [(''pid'', JStr ''p1''), (''src'', JNum 0)]) = Inr []
   \<and> add_page [] (JObj [(''pid'', JStr ''p1''), (''src'', JStr ''u1'')]) = Inr [(JStr ''p1'', JStr ''u1'')]
   \<and> collect_urls [] [JObj [(''pid'', JStr ''''), (''src'', JStr ''u1'')],
                       JObj [(''pid'', JStr ''p2''), (''src'', JStr ''u2'')]]
     = Inr [(JStr ''p2'', JStr ''u2'')]"
  using add_page_truthy_only [of "JObj [(''pid'', JStr ''''), (''src'', JStr ''u1'')]" "[]" "[]"
          "[JObj [(''pid'', JStr ''p2''), (''src'', JStr ''u2'')]]"
          "[JObj [(''pid'', JStr ''''), (''src'', JStr ''u1'')],
            JObj [(''pid'', JStr ''p2''), (''src'', JStr ''u2'')]]"
          "[(JStr ''p2'', JStr ''u2'')]"]
    add_page_truthy_only [of "JObj [(''pid'', JStr ''p1''), (''src'', JNum 0)]" "[]" "[]" "[]" "[]" "[]"]
    add_page_truthy_only [of "JObj [(''pid'', JStr ''p1''), (''src'', JStr ''u1'')]" "[]" "[]" "[]" "[]" "[]"]
  by (simp add: add_page_eq)

subsection \<open>Configuration\<close>

text \<open>
  Claim C9 does not hold of the script. On a page without the title element the set-up of
  \<^verbatim>\<open>CONFIG\<close> throws a \<^verbatim>\<open>ReferenceError\<close>, since \<^verbatim>\<open>getFilenamePrefix\<close> reads
  \<^verbatim>\<open>Logger\<close> before its declaration, and \<^verbatim>\<open>main\<close> never runs.
\<close>

theorem missing_title_throws:
  "getFilenamePrefix False None = Inl ReferenceError
   \<and> init_CONFIG \<lparr>title = None, id_param = Some ''abc123''\<rparr> = Inl ReferenceError
   \<and> script \<lparr>title = None, id_param = Some ''abc123''\<rparr> net = Inl ReferenceError"
  by (simp add: script_def init_CONFIG_def getFilenamePrefix_def)

subsection \<open>Building the jobs\<close>

text \<open>
  Claim C1. For a manifest of length \<open>N\<close> and any URL mapping, the job list consists, in
  manifest order, of one job for each position whose identifier has a truthy URL in the
  mapping, and of nothing else; the job of position \<open>i\<close> (counted from 1) has the filename
  made of the prefix, a hyphen, \<open>i\<close> padded with zeros to the number of digits of \<open>N\<close>, and
  \<^verbatim>\<open>.png\<close>. The number of jobs and the number of positions without URL add up to \<open>N\<close>.
  The padded number has exactly as many characters as \<open>N\<close> has digits, so the
  lexicographic order of the filenames is the numeric order of the positions, and the
  filenames of the job list are strictly increasing.
\<close>

theorem build_jobs_correct:
  "build_jobs prefix allPids m =
     map (\<lambda>i. \<lparr>url = the (map_get m (allPids ! i)),
               filename = page_filename prefix (length allPids) i\<rparr>)
         (filter (\<lambda>i. truthy (map_get m (allPids ! i))) [0 ..< length allPids])
   \<and> length (build_jobs prefix allPids m)
       + length (filter (\<lambda>pid. \<not> truthy (map_get m pid)) allPids) = length allPids
   \<and> (\<forall>i < length allPids.
        length (padStart (to_String (i + 1)) (length (to_String (length allPids))) CHR ''0'')
          = length (to_String (length allPids)))
   \<and> (\<forall>i < length allPids. \<forall>j < length allPids.
        page_filename prefix (length allPids) i < page_filename prefix (length allPids) j
          \<longleftrightarrow> i < j)
   \<and> sorted_wrt (<) (map filename (build_jobs prefix allPids m))"
proof (intro conjI allI impI)
  show "build_jobs prefix allPids m =
     map (\<lambda>i. \<lparr>url = the (map_get m (allPids ! i)),
               filename = page_filename prefix (length allPids) i\<rparr>)
         (filter (\<lambda>i. truthy (map_get m (allPids ! i))) [0 ..< length allPids])"
    by (rule build_jobs_eq)
  have "length (build_jobs prefix allPids m)
      = length (filter (\<lambda>pid. truthy (map_get m pid)) allPids)"
    by (simp add: build_jobs_eq unresolved_count [of "\<lambda>pid. truthy (map_get m pid)"])
  then show "length (build_jobs prefix allPids m)
       + length (filter (\<lambda>pid. \<not> truthy (map_get m pid)) allPids) = length allPids"
    by (simp add: sum_length_filter_compl)
  show "length (padStart (to_String (i + 1)) (length (to_String (length allPids))) CHR ''0'')
          = length (to_String (length allPids))" if "i < length allPids" for i
    using page_number_fixed [OF that] by simp
  show "page_filename prefix (length allPids) i < page_filename prefix (length allPids) j
          \<longleftrightarrow> i < j" if "i < length allPids" "j < length allPids" for i j
    by (rule page_filename_less_iff [OF that])
  show "sorted_wrt (<) (map filename (build_jobs prefix allPids m))"
    by (rule filenames_sorted)
qed

theorem build_jobs_correct_witness:
  "build_jobs ''X''
     [Some (JStr ''p1''), Some (JStr ''p2''), Some (JStr ''p3''), Some (JStr ''p4''),
      Some (JStr ''p5''), Some (JStr ''p6''), Some (JStr ''p7''), Some (JStr ''p8''),
      Some (JStr ''p9''), Some (JStr ''p10'')]
     [(JStr ''p2'', JStr ''u2''), (JStr ''p10'', JStr ''u10'')]
   = [\<lparr>url = JStr ''u2'', filename = ''X-02.png''\<rparr>,
      \<lparr>url = JStr ''u10'', filename = ''X-10.png''\<rparr>]
   \<and> sorted_wrt (<) [''X-02.png'', ''X-10.png'']
   \<and> page_filename ''X'' 10 1 < page_filename ''X'' 10 9"
proof -
  let ?pids = "[Some (JStr ''p1''), Some (JStr ''p2''), Some (JStr ''p3''), Some (JStr ''p4''),
      Some (JStr ''p5''), Some (JStr ''p6''), Some (JStr ''p7''), Some (JStr ''p8''),
      Some (JStr ''p9''), Some (JStr ''p10'')]"
  let ?m = "[(JStr ''p2'', JStr ''u2''), (JStr ''p10'', JStr ''u10'')]"
  note c = build_jobs_correct [of "''X''" ?pids ?m]
  have n: "length ?pids = 10" by simp
  from c have "sorted_wrt (<) (map filename (build_jobs ''X'' ?pids ?m))" by blast
  then have s: "sorted_wrt (<) [''X-02.png'', ''X-10.png'']"
    unfolding build_jobs_example by simp
  from c have "\<forall>i < length ?pids. \<forall>j < length ?pids.
        page_filename ''X'' (length ?pids) i < page_filename ''X'' (length ?pids) j \<longleftrightarrow> i < j"
    by blast
  then have "page_filename ''X'' 10 1 < page_filename ''X'' 10 9"
    unfolding n by simp
  with s build_jobs_example show ?thesis by blast
qed

text \<open>
  Claim C8. When the same identifier stands at two positions \<open>i < j\<close> of the manifest and
  has a URL, the job list holds two jobs, the one of position \<open>i\<close> before the one of
  position \<open>j\<close>, with the same URL and with different filenames.
\<close>

theorem duplicate_identifiers_keep_both_jobs:
  assumes "i < j" "j < length allPids" "allPids ! i = allPids ! j"
    and "truthy (map_get m (allPids ! i))"
  shows "\<exists>a b. a < b \<and> b < length (build_jobs prefix allPids m)
     \<and> build_jobs prefix allPids m ! a
         = \<lparr>url = the (map_get m (allPids ! i)), filename = page_filename prefix (length allPids) i\<rparr>
     \<and> build_jobs prefix allPids m ! b
         = \<lparr>url = the (map_get m (allPids ! i)), filename = page_filename prefix (length allPids) j\<rparr>
     \<and> page_filename prefix (length allPids) i \<noteq> page_filename prefix (length allPids) j"
proof -
  let ?is = "filter (\<lambda>i. truthy (map_get m (allPids ! i))) [0 ..< length allPids]"
  have s: "sorted_wrt (<) ?is"
    by (rule sorted_wrt_filter) simp
  from assms have "i \<in> set ?is" "j \<in> set ?is" by auto
  from sorted_wrt_less_positions [OF s this assms(1)]
  obtain a b where ab: "a < b" "b < length ?is" "?is ! a = i" "?is ! b = j" by blast
  from assms have "i < length allPids" by simp
  from page_filename_less_iff [OF this assms(2), of prefix] assms(1)
  have ne: "page_filename prefix (length allPids) i \<noteq> page_filename prefix (length allPids) j"
    by auto
  from ab assms(3) have "build_jobs prefix allPids m ! a
         = \<lparr>url = the (map_get m (allPids ! i)), filename = page_filename prefix (length allPids) i\<rparr>"
    "build_jobs prefix allPids m ! b
         = \<lparr>url = the (map_get m (allPids ! i)), filename = page_filename prefix (length allPids) j\<rparr>"
    "b < length (build_jobs prefix allPids m)"
    by (simp_all add: build_jobs_eq)
  with ab(1) ne show ?thesis by blast
qed

theorem duplicate_identifiers_keep_both_jobs_witness:
  "(0 :: nat) < 2
   \<and> 2 < length [Some (JStr ''p1''), Some (JStr ''p2''), Some (JStr ''p1'')]
   \<and> [Some (JStr ''p1''), Some (JStr ''p2''), Some (JStr ''p1'')] ! 0
       = [Some (JStr ''p1''), Some (JStr ''p2''), Some (JStr ''p1'')] ! 2
   \<and> truthy (map_get [(JStr ''p1'', JStr ''u1'')] (Some (JStr ''p1'')))
   \<and> build_jobs ''X'' [Some (JStr ''p1''), Some (JStr ''p2''), Some (JStr ''p1'')]
        [(JStr ''p1'', JStr ''u1'')]
      = [\<lparr>url = JStr ''u1'', filename = ''X-1.png''\<rparr>, \<lparr>url = JStr ''u1'', filename = ''X-3.png''\<rparr>]
   \<and> ''X-1.png'' \<noteq> ''X-3.png''"
proof -
  have h: "(0 :: nat) < 2"
    "2 < length [Some (JStr ''p1''), Some (JStr ''p2''), Some (JStr ''p1'')]"
    "[Some (JStr ''p1''), Some (JStr ''p2''), Some (JStr ''p1'')] ! 0
       = [Some (JStr ''p1''), Some (JStr ''p2''), Some (JStr ''p1'')] ! 2"
    "truthy (map_get [(JStr ''p1'', JStr ''u1'')]
       ([Some (JStr ''p1''), Some (JStr ''p2''), Some (JStr ''p1'')] ! 0))"
    by (simp_all add: same_value_zero_def)
  from duplicate_identifiers_keep_both_jobs [OF h, of "''X''"] duplicate_example h
  show ?thesis by (simp add: same_value_zero_def)
qed

subsection \<open>Downloading and the end of the run\<close>

text \<open>
  Claim C4. Whatever the image requests return, the download loop attempts every job, in
  the order of the job list; the filenames of the jobs whose download throws are recorded
  in \<^verbatim>\<open>failedDownloads\<close>, in order, and the other jobs are saved. In the summary the
  number of successes and the number of recorded failures add up to the number of jobs,
  and the number of successes is the number of files saved.
\<close>

theorem download_all_continues:
  "attempted (download_all images 0 jobs \<lparr>attempted = [], saved = [], failedDownloads = []\<rparr>)
     = jobs
   \<and> failedDownloads
       (download_all images 0 jobs \<lparr>attempted = [], saved = [], failedDownloads = []\<rparr>)
     = map (filename \<circ> snd) (filter (download_fails images) (zip [0 ..< length jobs] jobs))
   \<and> saved (download_all images 0 jobs \<lparr>attempted = [], saved = [], failedDownloads = []\<rparr>)
     = map (filename \<circ> snd)
         (filter (\<lambda>ij. \<not> download_fails images ij) (zip [0 ..< length jobs] jobs))
   \<and> succeeded (summarise jobs (failedDownloads
        (download_all images 0 jobs \<lparr>attempted = [], saved = [], failedDownloads = []\<rparr>)))
       + int (length (failed (summarise jobs (failedDownloads
        (download_all images 0 jobs \<lparr>attempted = [], saved = [], failedDownloads = []\<rparr>)))))
     = int (length jobs)
   \<and> succeeded (summarise jobs (failedDownloads
        (download_all images 0 jobs \<lparr>attempted = [], saved = [], failedDownloads = []\<rparr>)))
     = int (length (saved
        (download_all images 0 jobs \<lparr>attempted = [], saved = [], failedDownloads = []\<rparr>)))"
proof -
  let ?z = "zip [0 ..< length jobs] jobs"
  have "length (filter (download_fails images) ?z)
      + length (filter (\<lambda>ij. \<not> download_fails images ij) ?z) = length jobs"
    using sum_length_filter_compl [of "download_fails images" ?z] by simp
  then show ?thesis
    by (simp add: download_all_eq summarise_def)
qed

theorem download_all_continues_witness:
  "download_all second_image_fails 0
     [\<lparr>url = JStr ''u1'', filename = ''X-1.png''\<rparr>, \<lparr>url = JStr ''u2'', filename = ''X-2.png''\<rparr>,
      \<lparr>url = JStr ''u3'', filename = ''X-3.png''\<rparr>]
     \<lparr>attempted = [], saved = [], failedDownloads = []\<rparr>
   = \<lparr>attempted =
        [\<lparr>url = JStr ''u1'', filename = ''X-1.png''\<rparr>, \<lparr>url = JStr ''u2'', filename = ''X-2.png''\<rparr>,
         \<lparr>url = JStr ''u3'', filename = ''X-3.png''\<rparr>],
      saved = [''X-1.png'', ''X-3.png''],
      failedDownloads = [''X-2.png'']\<rparr>
   \<and> succeeded (summarise
        [\<lparr>url = JStr ''u1'', filename = ''X-1.png''\<rparr>, \<lparr>url = JStr ''u2'', filename = ''X-2.png''\<rparr>,
         \<lparr>url = JStr ''u3'', filename = ''X-3.png''\<rparr>] [''X-2.png''])
       + int (length (failed (summarise
        [\<lparr>url = JStr ''u1'', filename = ''X-1.png''\<rparr>, \<lparr>url = JStr ''u2'', filename = ''X-2.png''\<rparr>,
         \<lparr>url = JStr ''u3'', filename = ''X-3.png''\<rparr>] [''X-2.png''])))
     = 3"
proof -
  let ?jobs = "[\<lparr>url = JStr ''u1'', filename = ''X-1.png''\<rparr>,
      \<lparr>url = JStr ''u2'', filename = ''X-2.png''\<rparr>, \<lparr>url = JStr ''u3'', filename = ''X-3.png''\<rparr>]"
  let ?r = "download_all second_image_fails 0 ?jobs
     \<lparr>attempted = [], saved = [], failedDownloads = []\<rparr>"
  note c = download_all_continues [of second_image_fails ?jobs]
  from c have "succeeded (summarise ?jobs (failedDownloads ?r))
       + int (length (failed (summarise ?jobs (failedDownloads ?r)))) = int (length ?jobs)"
    by blast
  then have "succeeded (summarise ?jobs [''X-2.png''])
       + int (length (failed (summarise ?jobs [''X-2.png'']))) = 3"
    unfolding download_all_example by simp
  with download_all_example show ?thesis by blast
qed



end
